theory Spec2Isabelle
  imports Complex_Main
begin

section \<open>Configuration and constants of server.js\<close>

text \<open>
  The blockchain edition of the tracker (server.js, lines 299--712). \<open>CONFIG\<close> is read
  from the environment once; the three entries the surveillance pipeline reads are the
  fields below. Amounts are JavaScript numbers in the source; they are modelled as exact
  rationals (the rounding of IEEE doubles is not modelled), block heights, transaction
  counts and millisecond timestamps as integers.
\<close>

record config =
  DISCORD_WEBHOOK :: string
  MIN_BET_AMOUNT :: rat
  NEW_ACCOUNT_DAYS :: int

definition MAX_STORED_ALERTS :: nat where
  "MAX_STORED_ALERTS = 5000"

definition maxBlockRange :: int where
  "maxBlockRange = 50"

text \<open>The divisor \<open>1000 * 60 * 60 * 24\<close> of both age computations: one day in ms.\<close>

definition DAY_MS :: int where
  "DAY_MS = 1000 * 60 * 60 * 24"

section \<open>Data\<close>

text \<open>
  An \<open>OrderFilled\<close> log as \<open>queryFilter\<close> returns it: a decoded log carries
  \<open>args\<close> (the loop reads \<open>maker\<close>, \<open>makerAssetId\<close>, \<open>makerAmountFilled\<close>
  and \<open>orderHash\<close>); a log that could not be decoded has no \<open>args\<close>, and
  destructuring it throws.
\<close>

record fill_args =
  orderHash :: string
  maker :: string
  makerAssetId :: nat
  makerAmountFilled :: nat

datatype event = EventLog fill_args | UndecodedLog

text \<open>A market object of the Gamma API; every field may be absent in the JSON.\<close>

record market =
  slug :: "string option"
  question :: "string option"
  title :: "string option"
  m_closed :: "bool option"
  m_active :: "bool option"

record block =
  timestamp :: int

datatype error = ConnectivityError

text \<open>
  The \<open>description\<close> strings of a wallet-age record, by their text:
  \<open>BrandNew\<close> is "Brand New - First Trade Today!", \<open>DaysOld n\<close> is "n days old",
  \<open>LowTxCount\<close> is "New Wallet (Low Transaction Count)", \<open>Established n\<close> is
  "Established wallet (n transactions)" and \<open>UnknownAge\<close> is
  "Unknown Age (Error checking blockchain)".
\<close>

datatype description = BrandNew | DaysOld int | LowTxCount | Established int | UnknownAge

record wallet_info =
  isNew :: bool
  ageInDays :: int
  description :: description

datatype position = YES | NO

record trade_data =
  wallet :: string
  amount :: rat
  outcome :: position
  tradeHash :: string

text \<open>The embed posted to the webhook, by its fields.\<close>

record embed =
  embed_market :: string
  embed_amount :: rat
  embed_position :: position
  embed_wallet_age :: description
  embed_wallet :: string
  embed_url :: string
  embed_timestamp :: int

text \<open>
  The composite key of lines 587--589. The source renders the four components into one
  string joined by \<open>-\<close>; they are kept apart here, the day as the number of the UTC day
  (the ISO date of \<open>toISOString\<close> names exactly that day). An address and a decimal
  numeral hold no \<open>-\<close>, so two rendered keys are equal exactly when their components are.
\<close>

record alert_key =
  key_wallet :: string
  key_amount :: int
  key_asset :: string
  key_day :: int

section \<open>The outside world\<close>

text \<open>
  Every interaction with the outside (an RPC call of the provider, the HTTP calls, a read
  of the clock, the pacing delay) is recorded in the order it happens. What the outside
  answers may depend on everything that happened before, so each oracle takes the calls
  made so far.
\<close>

datatype call =
    GetBlockNumber
  | GetTransactionCount string
  | GetBalance string int
  | GetBlock int
  | QueryFilter int int
  | GetMarkets string
  | PostWebhook embed
  | DateNow
  | Sleep int

record world =
  getBlockNumber :: "call list \<Rightarrow> error + int"
  getTransactionCount :: "call list \<Rightarrow> string \<Rightarrow> error + int"
  getBalance :: "call list \<Rightarrow> string \<Rightarrow> int \<Rightarrow> error + nat"
  getBlock :: "call list \<Rightarrow> int \<Rightarrow> error + block option"
  queryFilter :: "call list \<Rightarrow> int \<Rightarrow> int \<Rightarrow> error + event list"
  getMarkets :: "call list \<Rightarrow> string \<Rightarrow> error + market list"
  postWebhook :: "call list \<Rightarrow> embed \<Rightarrow> error + unit"
  dateNow :: "call list \<Rightarrow> int"

text \<open>
  The module-level state: the cursor, the alerted set (a JavaScript \<open>Set\<close> iterates in
  insertion order, so it is a list without repetitions, oldest first), the first-seen
  cache, and the calls made so far.
\<close>

record state =
  lastProcessedBlock :: int
  alertedTrades :: "alert_key list"
  walletFirstSeen :: "string \<rightharpoonup> int"
  history :: "call list"

definition initial :: state where
  "initial = \<lparr>lastProcessedBlock = 0, alertedTrades = [], walletFirstSeen = Map.empty, history = []\<rparr>"

section \<open>Strings\<close>

definition toLowerCase_char :: "char \<Rightarrow> char" where
  "toLowerCase_char c =
     (let n = (of_char c :: nat) in if 65 \<le> n \<and> n \<le> 90 then char_of (n + 32) else c)"

definition toLowerCase :: "string \<Rightarrow> string" where
  "toLowerCase s = map toLowerCase_char s"

definition digit_char :: "nat \<Rightarrow> char" where
  "digit_char d = char_of (48 + d)"

text \<open>\<open>toString()\<close> of a non-negative BigInt: its decimal digits.\<close>

fun toString :: "nat \<Rightarrow> string" where
  "toString n = (if n < 10 then [digit_char n] else toString (n div 10) @ [digit_char (n mod 10)])"

declare toString.simps [simp del]

text \<open>\<open>s.slice(-k)\<close>: the last \<open>k\<close> characters, the whole string when it is shorter.\<close>

definition slice_last :: "nat \<Rightarrow> string \<Rightarrow> string" where
  "slice_last k s = drop (length s - k) s"

definition getOutcomeFromAssetId :: "nat \<Rightarrow> position" where
  "getOutcomeFromAssetId assetId =
     (let assetIdStr = toString assetId;
          lastDigit = (of_char (last assetIdStr) :: nat) - 48
      in if lastDigit mod 2 = 0 then NO else YES)"

section \<open>checkWalletAge\<close>

definition age_info :: "config \<Rightarrow> int \<Rightarrow> wallet_info" where
  "age_info cfg age =
     \<lparr>isNew = (age \<le> NEW_ACCOUNT_DAYS cfg), ageInDays = age,
      description = (if age = 0 then BrandNew else DaysOld age)\<rparr>"

definition fail_open :: "description \<Rightarrow> wallet_info" where
  "fail_open d = \<lparr>isNew = True, ageInDays = 0, description = d\<rparr>"

text \<open>
  The loop of lines 393--399, with the number of iterations left: each iteration probes
  the balance at \<open>midBlock\<close>; a probe that raises leaves the loop (and the inner
  \<open>try\<close>).
\<close>

fun findFirstTxBlock ::
  "world \<Rightarrow> string \<Rightarrow> int \<Rightarrow> int \<Rightarrow> nat \<Rightarrow> int \<Rightarrow> call list \<Rightarrow> (error + int) \<times> call list" where
  "findFirstTxBlock w address currentBlock blocksToSearch 0 firstTxBlock h = (Inr firstTxBlock, h)"
| "findFirstTxBlock w address currentBlock blocksToSearch (Suc i) firstTxBlock h =
     (let midBlock = (currentBlock - blocksToSearch + firstTxBlock) div 2 in
      case getBalance w h address midBlock of
        Inl e \<Rightarrow> (Inl e, h @ [GetBalance address midBlock])
      | Inr balance \<Rightarrow>
          findFirstTxBlock w address currentBlock blocksToSearch i
            (if balance > 0 then midBlock else firstTxBlock) (h @ [GetBalance address midBlock]))"

definition checkWalletAge :: "config \<Rightarrow> world \<Rightarrow> string \<Rightarrow> state \<Rightarrow> wallet_info \<times> state" where
  "checkWalletAge cfg w address s =
     (case walletFirstSeen s address of
        Some firstSeenTime \<Rightarrow>
          (let h = history s;
               ageInDays = (dateNow w h - firstSeenTime) div DAY_MS
           in (age_info cfg ageInDays, s\<lparr>history := h @ [DateNow]\<rparr>))
      | None \<Rightarrow>
          (let h0 = history s; h1 = h0 @ [GetTransactionCount address] in
           case getTransactionCount w h0 address of
             Inl e \<Rightarrow> (fail_open UnknownAge, s\<lparr>history := h1\<rparr>)
           | Inr txCount \<Rightarrow>
               if txCount \<le> 10 then
                 (case getBlockNumber w h1 of
                    Inl e \<Rightarrow> (fail_open LowTxCount, s\<lparr>history := h1 @ [GetBlockNumber]\<rparr>)
                  | Inr currentBlock \<Rightarrow>
                      (let blocksToSearch = min 10000 currentBlock;
                           h2 = h1 @ [GetBlockNumber]
                       in case findFirstTxBlock w address currentBlock blocksToSearch 5 currentBlock h2 of
                            (Inl e, h3) \<Rightarrow> (fail_open LowTxCount, s\<lparr>history := h3\<rparr>)
                          | (Inr firstTxBlock, h3) \<Rightarrow>
                              (let h4 = h3 @ [GetBlock firstTxBlock] in
                               case getBlock w h3 firstTxBlock of
                                 Inl e \<Rightarrow> (fail_open LowTxCount, s\<lparr>history := h4\<rparr>)
                               | Inr None \<Rightarrow> (fail_open LowTxCount, s\<lparr>history := h4\<rparr>)
                               | Inr (Some blk) \<Rightarrow>
                                   (let firstSeenTimestamp = timestamp blk * 1000;
                                        ageInMs = dateNow w h4 - firstSeenTimestamp;
                                        ageInDays = ageInMs div DAY_MS
                                    in (age_info cfg ageInDays,
                                        s\<lparr>walletFirstSeen := (walletFirstSeen s)(address \<mapsto> firstSeenTimestamp),
                                          history := h4 @ [DateNow]\<rparr>)))))
               else (\<lparr>isNew = False, ageInDays = 999, description = Established txCount\<rparr>,
                     s\<lparr>history := h1\<rparr>)))"

section \<open>Market lookup and the notifier\<close>

definition getMarketByConditionId :: "world \<Rightarrow> string \<Rightarrow> state \<Rightarrow> market option \<times> state" where
  "getMarketByConditionId w conditionId s =
     (let h = history s; s1 = s\<lparr>history := h @ [GetMarkets conditionId]\<rparr> in
      case getMarkets w h conditionId of
        Inl e \<Rightarrow> (None, s1)
      | Inr [] \<Rightarrow> (None, s1)
      | Inr (m # ms) \<Rightarrow> (Some m, s1))"

text \<open>A string field is truthy when it is present and not empty.\<close>

definition truthy :: "string option \<Rightarrow> bool" where
  "truthy v = (case v of None \<Rightarrow> False | Some t \<Rightarrow> t \<noteq> [])"

text \<open>What \<open>sendDiscordAlert\<close> logs; it returns nothing, and the caller reads nothing.\<close>

datatype delivery = NotConfigured | Delivered | DeliveryFailed

definition sendDiscordAlert ::
  "config \<Rightarrow> world \<Rightarrow> trade_data \<Rightarrow> wallet_info \<Rightarrow> market \<Rightarrow> state \<Rightarrow> delivery \<times> state" where
  "sendDiscordAlert cfg w tradeData walletInfo mkt s =
     (if DISCORD_WEBHOOK cfg = [] then (NotConfigured, s)
      else
        (let marketUrl = (if truthy (slug mkt) then ''https://polymarket.com/event/'' @ the (slug mkt)
                          else ''https://polymarket.com'');
             marketTitle = (if truthy (question mkt) then the (question mkt)
                            else if truthy (title mkt) then the (title mkt)
                            else ''Unknown Market'');
             h = history s;
             e = \<lparr>embed_market = marketTitle, embed_amount = amount tradeData,
                  embed_position = outcome tradeData, embed_wallet_age = description walletInfo,
                  embed_wallet = wallet tradeData, embed_url = marketUrl,
                  embed_timestamp = dateNow w h\<rparr>;
             h1 = h @ [DateNow];
             s1 = s\<lparr>history := h1 @ [PostWebhook e]\<rparr>
         in case postWebhook w h1 e of
              Inl err \<Rightarrow> (DeliveryFailed, s1)
            | Inr u \<Rightarrow> (Delivered, s1)))"

section \<open>The alerted set\<close>

text \<open>\<open>Set.add\<close>: a key already present keeps its place.\<close>

definition set_add :: "'a list \<Rightarrow> 'a \<Rightarrow> 'a list" where
  "set_add xs x = (if x \<in> set xs then xs else xs @ [x])"

text \<open>
  Lines 636--642: add the key, then delete the first item of the iteration order when the
  size exceeds \<open>MAX_STORED_ALERTS\<close>.
\<close>

definition markAlerted :: "alert_key list \<Rightarrow> alert_key \<Rightarrow> alert_key list" where
  "markAlerted alerted alertKey =
     (let a = set_add alerted alertKey in
      if length a > MAX_STORED_ALERTS
      then (case a of [] \<Rightarrow> a | firstItem # rest \<Rightarrow> remove1 firstItem a)
      else a)"

section \<open>processBlockchainEvents\<close>

text \<open>How the body of the loop leaves an event, by the line it logs (if any).\<close>

datatype outcome =
    ErrorProcessingEvent
  | BelowMinimum
  | AlreadyAlerted
  | NotNewEnough
  | NoMarketInfo
  | MarketClosedOrInactive
  | AlertSent delivery

definition tradeAmountOf :: "fill_args \<Rightarrow> rat" where
  "tradeAmountOf args = of_nat (makerAmountFilled args) / 1000000"

definition alertKeyOf :: "fill_args \<Rightarrow> int \<Rightarrow> alert_key" where
  "alertKeyOf args now =
     \<lparr>key_wallet = toLowerCase (maker args),
      key_amount = \<lfloor>tradeAmountOf args / 100\<rfloor> * 100,
      key_asset = slice_last 8 (toString (makerAssetId args)),
      key_day = now div DAY_MS\<rparr>"

definition processEvent :: "config \<Rightarrow> world \<Rightarrow> event \<Rightarrow> state \<Rightarrow> outcome \<times> state" where
  "processEvent cfg w ev s =
     (case ev of
        UndecodedLog \<Rightarrow> (ErrorProcessingEvent, s)
      | EventLog args \<Rightarrow>
          (let tradeAmount = tradeAmountOf args in
           if tradeAmount < MIN_BET_AMOUNT cfg then (BelowMinimum, s)
           else
             (let h0 = history s;
                  alertKey = alertKeyOf args (dateNow w h0);
                  s1 = s\<lparr>history := h0 @ [DateNow]\<rparr>
              in if alertKey \<in> set (alertedTrades s1) then (AlreadyAlerted, s1)
                 else
                   (case checkWalletAge cfg w (maker args) s1 of
                      (walletInfo, s2) \<Rightarrow>
                        if \<not> isNew walletInfo then (NotNewEnough, s2)
                        else
                          (let conditionId = take 66 (toString (makerAssetId args)) in
                           case getMarketByConditionId w conditionId s2 of
                             (None, s3) \<Rightarrow> (NoMarketInfo, s3)
                           | (Some mkt, s3) \<Rightarrow>
                               if m_closed mkt = Some True \<or> m_active mkt = Some False
                               then (MarketClosedOrInactive, s3)
                               else
                                 (let tradeData = \<lparr>wallet = maker args, amount = tradeAmount,
                                                   outcome = getOutcomeFromAssetId (makerAssetId args),
                                                   tradeHash = orderHash args\<rparr>
                                  in case sendDiscordAlert cfg w tradeData walletInfo mkt s3 of
                                       (sent, s4) \<Rightarrow>
                                         (AlertSent sent,
                                          s4\<lparr>alertedTrades := markAlerted (alertedTrades s4) alertKey,
                                             history := history s4 @ [Sleep 2000]\<rparr>)))))))"

fun processEvents :: "config \<Rightarrow> world \<Rightarrow> event list \<Rightarrow> state \<Rightarrow> outcome list \<times> state" where
  "processEvents cfg w [] s = ([], s)"
| "processEvents cfg w (ev # evs) s =
     (case processEvent cfg w ev s of
        (out, s1) \<Rightarrow> (case processEvents cfg w evs s1 of (outs, s2) \<Rightarrow> (out # outs, s2)))"

text \<open>What one tick logs last.\<close>

datatype tick_result = ScanError | NoNewBlocks | ScanComplete "outcome list"

definition processBlockchainEvents :: "config \<Rightarrow> world \<Rightarrow> state \<Rightarrow> tick_result \<times> state" where
  "processBlockchainEvents cfg w s =
     (let h0 = history s; s1 = s\<lparr>history := h0 @ [GetBlockNumber]\<rparr> in
      case getBlockNumber w h0 of
        Inl e \<Rightarrow> (ScanError, s1)
      | Inr currentBlock \<Rightarrow>
          if currentBlock \<le> lastProcessedBlock s then (NoNewBlocks, s1)
          else
            (let toBlock = min currentBlock (lastProcessedBlock s + maxBlockRange);
                 s2 = s1\<lparr>history := history s1 @ [QueryFilter (lastProcessedBlock s + 1) toBlock]\<rparr>
             in case queryFilter w (history s1) (lastProcessedBlock s + 1) toBlock of
                  Inl e \<Rightarrow> (ScanError, s2)
                | Inr events \<Rightarrow>
                    (case processEvents cfg w events s2 of
                       (outs, s3) \<Rightarrow> (ScanComplete outs, s3\<lparr>lastProcessedBlock := toBlock\<rparr>))))"

section \<open>Calls that overlap\<close>

text \<open>
  \<open>processBlockchainEvents\<close> is an async function, and the interval timer (lines
  698--701) starts a call of it every \<open>CHECK_INTERVAL\<close> without waiting for the one
  before. A call runs until its next \<open>await\<close> and goes on when the awaited operation
  completes; in between, another call may run. A suspended call is what it awaits together
  with the locals it will read again. The locals of the loop body (lines 574--649):
\<close>

record frame =
  toBlock_of :: int
  rest_of :: "event list"
  args_of :: fill_args
  alertKey_of :: alert_key

text \<open>Each constructor is one \<open>await\<close> of the source, named by its line.\<close>

datatype task =
    AwaitHeight
  | AwaitLogs int int
  | AwaitTxCount frame
  | AwaitSearchHeight frame
  | AwaitBalance frame int int nat int
  | AwaitBlock frame int
  | AwaitWalletAge frame wallet_info
  | AwaitMarkets frame wallet_info
  | AwaitMarket frame wallet_info "market option"
  | AwaitPost frame embed
  | AwaitAlert frame delivery
  | AwaitPacing frame

text \<open>
  \<open>AwaitHeight\<close> is line 551; \<open>AwaitLogs fromBlock toBlock\<close> line 566, with the
  arguments the query was called with; \<open>AwaitTxCount\<close> line 380;
  \<open>AwaitSearchHeight\<close> line 387; \<open>AwaitBalance currentBlock blocksToSearch n
  firstTxBlock\<close> line 395, with \<open>n\<close> iterations to follow this one; \<open>AwaitBlock
  firstTxBlock\<close> line 401; \<open>AwaitWalletAge\<close> line 600, once \<open>checkWalletAge\<close> has
  returned; \<open>AwaitMarkets\<close> line 447; \<open>AwaitMarket\<close> line 611, once
  \<open>getMarketByConditionId\<close> has returned; \<open>AwaitPost\<close> line 536; \<open>AwaitAlert\<close>
  line 633, once \<open>sendDiscordAlert\<close> has returned; \<open>AwaitPacing\<close> line 645.

  The call of an operation is recorded in the history when the operation completes, and
  the oracle answers from the history of that moment; for a call that runs alone this is
  the order of the definitions above.
\<close>

text \<open>The start of \<open>checkWalletAge\<close>, up to its first \<open>await\<close> or its return (lines 369--380).\<close>

definition enterCheckWalletAge :: "config \<Rightarrow> world \<Rightarrow> frame \<Rightarrow> state \<Rightarrow> task \<times> state" where
  "enterCheckWalletAge cfg w fr s =
     (case walletFirstSeen s (maker (args_of fr)) of
        Some firstSeenTime \<Rightarrow>
          (let h = history s;
               ageInDays = (dateNow w h - firstSeenTime) div DAY_MS
           in (AwaitWalletAge fr (age_info cfg ageInDays), s\<lparr>history := h @ [DateNow]\<rparr>))
      | None \<Rightarrow> (AwaitTxCount fr, s))"

text \<open>
  The loop over the events from its head on, up to the next \<open>await\<close> (lines 574--600);
  when the events are used up, line 651 writes the cursor and the call ends.
\<close>

fun forEvents :: "config \<Rightarrow> world \<Rightarrow> int \<Rightarrow> event list \<Rightarrow> state \<Rightarrow> task option \<times> state" where
  "forEvents cfg w toBlock [] s = (None, s\<lparr>lastProcessedBlock := toBlock\<rparr>)"
| "forEvents cfg w toBlock (UndecodedLog # rest) s = forEvents cfg w toBlock rest s"
| "forEvents cfg w toBlock (EventLog args # rest) s =
     (if tradeAmountOf args < MIN_BET_AMOUNT cfg then forEvents cfg w toBlock rest s
      else
        (let h0 = history s;
             alertKey = alertKeyOf args (dateNow w h0);
             s1 = s\<lparr>history := h0 @ [DateNow]\<rparr>
         in if alertKey \<in> set (alertedTrades s1) then forEvents cfg w toBlock rest s1
            else
              (case enterCheckWalletAge cfg w
                      \<lparr>toBlock_of = toBlock, rest_of = rest, args_of = args, alertKey_of = alertKey\<rparr> s1 of
                 (t, s2) \<Rightarrow> (Some t, s2))))"

text \<open>The embed of lines 486--534, stamped with the time it is built.\<close>

definition alertEmbed :: "fill_args \<Rightarrow> wallet_info \<Rightarrow> market \<Rightarrow> int \<Rightarrow> embed" where
  "alertEmbed args walletInfo mkt now =
     \<lparr>embed_market = (if truthy (question mkt) then the (question mkt)
                       else if truthy (title mkt) then the (title mkt)
                       else ''Unknown Market''),
      embed_amount = tradeAmountOf args,
      embed_position = getOutcomeFromAssetId (makerAssetId args),
      embed_wallet_age = description walletInfo,
      embed_wallet = maker args,
      embed_url = (if truthy (slug mkt) then ''https://polymarket.com/event/'' @ the (slug mkt)
                   else ''https://polymarket.com''),
      embed_timestamp = now\<rparr>"

text \<open>
  The awaited operation completes: the call goes on to its next \<open>await\<close>, or to its end
  (\<open>None\<close>).
\<close>

fun resume :: "config \<Rightarrow> world \<Rightarrow> task \<Rightarrow> state \<Rightarrow> task option \<times> state" where
  "resume cfg w AwaitHeight s =
     (let h = history s; s1 = s\<lparr>history := h @ [GetBlockNumber]\<rparr> in
      case getBlockNumber w h of
        Inl e \<Rightarrow> (None, s1)
      | Inr currentBlock \<Rightarrow>
          if currentBlock \<le> lastProcessedBlock s then (None, s1)
          else (Some (AwaitLogs (lastProcessedBlock s + 1)
                        (min currentBlock (lastProcessedBlock s + maxBlockRange))), s1))"
| "resume cfg w (AwaitLogs fromBlock toBlock) s =
     (let h = history s; s1 = s\<lparr>history := h @ [QueryFilter fromBlock toBlock]\<rparr> in
      case queryFilter w h fromBlock toBlock of
        Inl e \<Rightarrow> (None, s1)
      | Inr events \<Rightarrow> forEvents cfg w toBlock events s1)"
| "resume cfg w (AwaitTxCount fr) s =
     (let h = history s; address = maker (args_of fr);
          s1 = s\<lparr>history := h @ [GetTransactionCount address]\<rparr> in
      case getTransactionCount w h address of
        Inl e \<Rightarrow> (Some (AwaitWalletAge fr (fail_open UnknownAge)), s1)
      | Inr txCount \<Rightarrow>
          if txCount \<le> 10 then (Some (AwaitSearchHeight fr), s1)
          else (Some (AwaitWalletAge fr
                  \<lparr>isNew = False, ageInDays = 999, description = Established txCount\<rparr>), s1))"
| "resume cfg w (AwaitSearchHeight fr) s =
     (let h = history s; s1 = s\<lparr>history := h @ [GetBlockNumber]\<rparr> in
      case getBlockNumber w h of
        Inl e \<Rightarrow> (Some (AwaitWalletAge fr (fail_open LowTxCount)), s1)
      | Inr currentBlock \<Rightarrow>
          (Some (AwaitBalance fr currentBlock (min 10000 currentBlock) 4 currentBlock), s1))"
| "resume cfg w (AwaitBalance fr currentBlock blocksToSearch n firstTxBlock) s =
     (let h = history s; address = maker (args_of fr);
          midBlock = (currentBlock - blocksToSearch + firstTxBlock) div 2;
          s1 = s\<lparr>history := h @ [GetBalance address midBlock]\<rparr> in
      case getBalance w h address midBlock of
        Inl e \<Rightarrow> (Some (AwaitWalletAge fr (fail_open LowTxCount)), s1)
      | Inr balance \<Rightarrow>
          (let firstTxBlock' = (if balance > 0 then midBlock else firstTxBlock) in
           case n of
             0 \<Rightarrow> (Some (AwaitBlock fr firstTxBlock'), s1)
           | Suc n' \<Rightarrow> (Some (AwaitBalance fr currentBlock blocksToSearch n' firstTxBlock'), s1)))"
| "resume cfg w (AwaitBlock fr firstTxBlock) s =
     (let h = history s; address = maker (args_of fr);
          h4 = h @ [GetBlock firstTxBlock] in
      case getBlock w h firstTxBlock of
        Inl e \<Rightarrow> (Some (AwaitWalletAge fr (fail_open LowTxCount)), s\<lparr>history := h4\<rparr>)
      | Inr None \<Rightarrow> (Some (AwaitWalletAge fr (fail_open LowTxCount)), s\<lparr>history := h4\<rparr>)
      | Inr (Some blk) \<Rightarrow>
          (let firstSeenTimestamp = timestamp blk * 1000;
               ageInMs = dateNow w h4 - firstSeenTimestamp;
               ageInDays = ageInMs div DAY_MS
           in (Some (AwaitWalletAge fr (age_info cfg ageInDays)),
               s\<lparr>walletFirstSeen := (walletFirstSeen s)(address \<mapsto> firstSeenTimestamp),
                 history := h4 @ [DateNow]\<rparr>)))"
| "resume cfg w (AwaitWalletAge fr walletInfo) s =
     (if \<not> isNew walletInfo then forEvents cfg w (toBlock_of fr) (rest_of fr) s
      else (Some (AwaitMarkets fr walletInfo), s))"
| "resume cfg w (AwaitMarkets fr walletInfo) s =
     (let h = history s; conditionId = take 66 (toString (makerAssetId (args_of fr)));
          s1 = s\<lparr>history := h @ [GetMarkets conditionId]\<rparr> in
      case getMarkets w h conditionId of
        Inl e \<Rightarrow> (Some (AwaitMarket fr walletInfo None), s1)
      | Inr [] \<Rightarrow> (Some (AwaitMarket fr walletInfo None), s1)
      | Inr (m # ms) \<Rightarrow> (Some (AwaitMarket fr walletInfo (Some m)), s1))"
| "resume cfg w (AwaitMarket fr walletInfo None) s = forEvents cfg w (toBlock_of fr) (rest_of fr) s"
| "resume cfg w (AwaitMarket fr walletInfo (Some mkt)) s =
     (if m_closed mkt = Some True \<or> m_active mkt = Some False
      then forEvents cfg w (toBlock_of fr) (rest_of fr) s
      else if DISCORD_WEBHOOK cfg = [] then (Some (AwaitAlert fr NotConfigured), s)
      else
        (let h = history s in
         (Some (AwaitPost fr (alertEmbed (args_of fr) walletInfo mkt (dateNow w h))),
          s\<lparr>history := h @ [DateNow]\<rparr>)))"
| "resume cfg w (AwaitPost fr e) s =
     (let h = history s; s1 = s\<lparr>history := h @ [PostWebhook e]\<rparr> in
      case postWebhook w h e of
        Inl err \<Rightarrow> (Some (AwaitAlert fr DeliveryFailed), s1)
      | Inr u \<Rightarrow> (Some (AwaitAlert fr Delivered), s1))"
| "resume cfg w (AwaitAlert fr sent) s =
     (Some (AwaitPacing fr), s\<lparr>alertedTrades := markAlerted (alertedTrades s) (alertKey_of fr)\<rparr>)"
| "resume cfg w (AwaitPacing fr) s =
     forEvents cfg w (toBlock_of fr) (rest_of fr) (s\<lparr>history := history s @ [Sleep 2000]\<rparr>)"

text \<open>
  The process: the module-level state and the calls that are suspended, oldest first.
  Either the timer fires and a new call starts (it runs to line 551 and waits for the
  height), or the operation that the \<open>i\<close>-th suspended call awaits completes.
\<close>

record process =
  shared :: state
  calls :: "task list"

datatype occurrence = TimerFires | Completes nat

definition idle :: "state \<Rightarrow> process" where
  "idle s = \<lparr>shared = s, calls = []\<rparr>"

definition occur :: "config \<Rightarrow> world \<Rightarrow> process \<Rightarrow> occurrence \<Rightarrow> process" where
  "occur cfg w p oc =
     (case oc of
        TimerFires \<Rightarrow> p\<lparr>calls := calls p @ [AwaitHeight]\<rparr>
      | Completes i \<Rightarrow>
          if i < length (calls p) then
            (case resume cfg w (calls p ! i) (shared p) of
               (None, s') \<Rightarrow> \<lparr>shared = s', calls = take i (calls p) @ drop (Suc i) (calls p)\<rparr>
             | (Some t, s') \<Rightarrow> \<lparr>shared = s', calls = (calls p)[i := t]\<rparr>)
          else p)"

definition run :: "config \<Rightarrow> world \<Rightarrow> occurrence list \<Rightarrow> process \<Rightarrow> process" where
  "run cfg w ocs p = foldl (occur cfg w) p ocs"

text \<open>
  A call that runs alone: \<open>n\<close> of its awaited operations complete one after the other
  with nothing in between.
\<close>

fun alone :: "config \<Rightarrow> world \<Rightarrow> nat \<Rightarrow> task option \<times> state \<Rightarrow> task option \<times> state" where
  "alone cfg w 0 x = x"
| "alone cfg w (Suc n) (None, s) = (None, s)"
| "alone cfg w (Suc n) (Some t, s) = alone cfg w n (resume cfg w t s)"

definition reaches :: "config \<Rightarrow> world \<Rightarrow> task option \<times> state \<Rightarrow> task option \<times> state \<Rightarrow> bool" where
  "reaches cfg w x y = (\<exists>n. alone cfg w n x = y)"

text \<open>Where the call stands when the loop of lines 393--399 has ended with a given result.\<close>

definition afterSearch :: "frame \<Rightarrow> state \<Rightarrow> (error + int) \<times> call list \<Rightarrow> task option \<times> state" where
  "afterSearch fr s res =
     (case res of
        (Inl e, h') \<Rightarrow> (Some (AwaitWalletAge fr (fail_open LowTxCount)), s\<lparr>history := h'\<rparr>)
      | (Inr f', h') \<Rightarrow> (Some (AwaitBlock fr f'), s\<lparr>history := h'\<rparr>))"

text \<open>
  A call among other calls: the operation it awaits completes in the state \<open>s\<close>, and the
  operations it awaits after that in the states \<open>ss\<close>, whatever the other calls have
  made of the module-level state in between.
\<close>

fun resumes :: "config \<Rightarrow> world \<Rightarrow> task \<Rightarrow> state \<Rightarrow> state list \<Rightarrow> task option \<times> state" where
  "resumes cfg w t s [] = resume cfg w t s"
| "resumes cfg w t s (s' # ss) =
     (case resume cfg w t s of
        (None, s1) \<Rightarrow> (None, s1)
      | (Some t', s1) \<Rightarrow> resumes cfg w t' s' ss)"

text \<open>
  A suspended call without what \<open>sendDiscordAlert\<close> logged: line 633 reads nothing from
  it.
\<close>

fun forget :: "task \<Rightarrow> task" where
  "forget (AwaitAlert fr sent) = AwaitAlert fr NotConfigured"
| "forget t = t"

text \<open>
  The record of lines 416--420 and 434--438: new, of age 0, with a description that is not
  an age (the record has no other field to say how sure the estimate is).
\<close>

definition failedOpen :: "wallet_info \<Rightarrow> bool" where
  "failedOpen walletInfo =
     (isNew walletInfo \<and> ageInDays walletInfo = 0 \<and>
      (description walletInfo = UnknownAge \<or> description walletInfo = LowTxCount))"

section \<open>Observations on the calls made\<close>

text \<open>The block ranges handed to the log query, in the order of the calls.\<close>

fun queries :: "call list \<Rightarrow> (int \<times> int) list" where
  "queries [] = []"
| "queries (QueryFilter a b # h) = (a, b) # queries h"
| "queries (c # h) = queries h"

text \<open>The ranges queried on the way from a state to a later one.\<close>

definition new_queries :: "state \<Rightarrow> state \<Rightarrow> (int \<times> int) list" where
  "new_queries s s' = drop (length (queries (history s))) (queries (history s'))"

text \<open>The range the tick that starts in a state hands to the log query, if it gets there.\<close>

definition tick_range :: "world \<Rightarrow> state \<Rightarrow> (int \<times> int) list" where
  "tick_range w s =
     (case getBlockNumber w (history s) of
        Inl e \<Rightarrow> []
      | Inr currentBlock \<Rightarrow>
          if currentBlock \<le> lastProcessedBlock s then []
          else [(lastProcessedBlock s + 1, min currentBlock (lastProcessedBlock s + maxBlockRange))])"

text \<open>The embeds posted to the webhook, in order.\<close>

fun posts :: "call list \<Rightarrow> embed list" where
  "posts [] = []"
| "posts (PostWebhook e # h) = e # posts h"
| "posts (c # h) = posts h"

section \<open>Concrete inputs\<close>

definition cfg0 :: config where
  "cfg0 = \<lparr>DISCORD_WEBHOOK = ''https://discord.example/api/webhooks/1'',
           MIN_BET_AMOUNT = 10000, NEW_ACCOUNT_DAYS = 7\<rparr>"

definition market0 :: market where
  "market0 = \<lparr>slug = Some ''will-it-rain'', question = Some ''Will it rain?'', title = None,
              m_closed = Some False, m_active = Some True\<rparr>"

text \<open>
  A quiet chain at height 1000000 whose blocks are five seconds old (the clock reads
  2023-11-14T00:00:05Z, the blocks were made at midnight): every wallet
  has two transactions and no balance in the window, the market is active, the webhook
  accepts every post and the log query finds nothing.
\<close>

definition world0 :: world where
  "world0 =
     \<lparr>getBlockNumber = (\<lambda>h. Inr 1000000),
      getTransactionCount = (\<lambda>h a. Inr 2),
      getBalance = (\<lambda>h a b. Inr 0),
      getBlock = (\<lambda>h b. Inr (Some \<lparr>timestamp = 1699920000\<rparr>)),
      queryFilter = (\<lambda>h a b. Inr []),
      getMarkets = (\<lambda>h c. Inr [market0]),
      postWebhook = (\<lambda>h e. Inr ()),
      dateNow = (\<lambda>h. 1699920005000)\<rparr>"

definition maker0 :: string where
  "maker0 = ''0x52bc44d5378309EE2abF1539BF71dE1b7d7bE3b5''"

text \<open>A fill of 9,999 USDC (six decimals), and one of 50,000.\<close>

definition args_9999 :: fill_args where
  "args_9999 = \<lparr>orderHash = ''0x01'', maker = maker0, makerAssetId = 71321045679252212,
                makerAmountFilled = 9999000000\<rparr>"

definition args_50000 :: fill_args where
  "args_50000 = \<lparr>orderHash = ''0x02'', maker = maker0, makerAssetId = 71321045679252212,
                 makerAmountFilled = 50000000000\<rparr>"

text \<open>The cursor at block 100 with nothing else stored.\<close>

definition s100 :: state where
  "s100 = initial\<lparr>lastProcessedBlock := 100\<rparr>"

text \<open>
  A chain whose height reads 110 at the first call and 140 afterwards, with no fills in
  any range.
\<close>

definition world_rising :: world where
  "world_rising = world0\<lparr>getBlockNumber := (\<lambda>h. if h = [] then Inr 110 else Inr 140)\<rparr>"

text \<open>
  Two calls overlap: the first reads height 110 and asks for the logs of (101, 110); before
  the answer comes the timer fires again, and the second call reads height 140, asks for
  (101, 140), gets its answer and ends; then the first call gets its answer and ends. The
  timer fires a third time, and the third call runs alone.
\<close>

definition overlap_schedule :: "occurrence list" where
  "overlap_schedule =
     [TimerFires, Completes 0, TimerFires, Completes 1, Completes 1, Completes 0,
      TimerFires, Completes 0, Completes 0]"

text \<open>A chain at height 110 whose log query returns the fill of 50,000 USDC for every range.\<close>

definition world_fill :: world where
  "world_fill = world0\<lparr>getBlockNumber := (\<lambda>h. Inr 110),
                       queryFilter := (\<lambda>h a b. Inr [EventLog args_50000])\<rparr>"

text \<open>
  Two calls overlap on the same fill: the first gets the logs, passes the fill through the
  membership check and waits for the transaction count; the timer fires, and the second
  call reads the height, gets the same logs from the cursor that has not moved, and passes
  the same fill through the membership check. Then the first call runs to its end (14
  operations complete), and the second after it.
\<close>

definition race_schedule :: "occurrence list" where
  "race_schedule =
     [TimerFires, Completes 0, Completes 0, TimerFires, Completes 1, Completes 1] @
     replicate 14 (Completes 0) @ replicate 14 (Completes 0)"

text \<open>
  A busy day. The clock reads 2023-11-14T00:00:05Z at the start and moves on by the two
  seconds of every pacing delay; the chain is the quiet one. Fill number \<open>i\<close> is the
  maker's trade of \<open>50000 + 100 i\<close> USDC, so every fill has a key of its own.
\<close>

fun sleeps :: "call list \<Rightarrow> nat" where
  "sleeps [] = 0"
| "sleeps (Sleep d # h) = Suc (sleeps h)"
| "sleeps (c # h) = sleeps h"

definition world_busy :: world where
  "world_busy = world0\<lparr>dateNow := (\<lambda>h. 1699920005000 + 2000 * int (sleeps h))\<rparr>"

definition args_n :: "nat \<Rightarrow> fill_args" where
  "args_n i = \<lparr>orderHash = ''0x03'', maker = maker0, makerAssetId = 71321045679252212,
               makerAmountFilled = (50000 + 100 * i) * 1000000\<rparr>"

definition key_n :: "nat \<Rightarrow> alert_key" where
  "key_n i = alertKeyOf (args_n i) 1699920005000"

text \<open>The first-seen time the quiet chain gives every wallet: the midnight block, in ms.\<close>

definition first_seen0 :: int where
  "first_seen0 = 1699920000000"

text \<open>The first 5001 fills of the busy day.\<close>

definition busy_events :: "event list" where
  "busy_events = map (\<lambda>i. EventLog (args_n i)) [0..<5001]"

text \<open>The maker's wallet cached with the midnight block as its first-seen time.\<close>

definition s_cached :: state where
  "s_cached = initial\<lparr>walletFirstSeen := [maker0 \<mapsto> first_seen0]\<rparr>"

text \<open>
  A clock that reads one millisecond before the first-seen time's next midnight at the
  first call and that midnight afterwards.
\<close>

definition world_midnight :: world where
  "world_midnight = world0\<lparr>dateNow := (\<lambda>h. if h = [] then first_seen0 + 86399999 else first_seen0 + 86400000)\<rparr>"

text \<open>The webhook refuses every post; one call finds the fill of 50,000 USDC and runs alone.\<close>

definition world_refusing :: world where
  "world_refusing = world_fill\<lparr>postWebhook := (\<lambda>h e. Inl ConnectivityError)\<rparr>"

definition single_call :: "occurrence list" where
  "single_call = [TimerFires, Completes 0, Completes 0] @ replicate 14 (Completes 0)"

text \<open>The provider is down: every query of the chain raises. The frame of the fill of 50,000 USDC.\<close>

definition world_down :: world where
  "world_down =
     world0\<lparr>getBlockNumber := (\<lambda>h. Inl ConnectivityError),
            getTransactionCount := (\<lambda>h a. Inl ConnectivityError),
            getBalance := (\<lambda>h a b. Inl ConnectivityError),
            getBlock := (\<lambda>h b. Inl ConnectivityError)\<rparr>"

definition frame0 :: frame where
  "frame0 = \<lparr>toBlock_of = 110, rest_of = [], args_of = args_50000,
             alertKey_of = alertKeyOf args_50000 1699920005000\<rparr>"

section \<open>What the steps leave alone\<close>

lemma queries_append [simp]: "queries (h @ h') = queries h @ queries h'"
  by (induction h rule: queries.induct) simp_all

lemma findFirstTxBlock_queries:
  "queries (snd (findFirstTxBlock w a cur win i f h)) = queries h"
  by (induction i arbitrary: f h) (simp_all add: Let_def split: sum.splits)

lemma findFirstTxBlock_queriesD:
  assumes "findFirstTxBlock w a cur win i f h = (r, h')"
  shows "queries h' = queries h"
  using findFirstTxBlock_queries [of w a cur win i f h] assms by simp

lemma checkWalletAge_queries:
  "queries (history (snd (checkWalletAge cfg w a s))) = queries (history s)"
  by (simp add: checkWalletAge_def Let_def findFirstTxBlock_queriesD
      split: option.splits sum.splits prod.splits)

lemma checkWalletAge_frame:
  "lastProcessedBlock (snd (checkWalletAge cfg w a s)) = lastProcessedBlock s"
  "alertedTrades (snd (checkWalletAge cfg w a s)) = alertedTrades s"
  by (simp_all add: checkWalletAge_def Let_def split: option.splits sum.splits prod.splits)

lemma getMarket_frame:
  "lastProcessedBlock (snd (getMarketByConditionId w c s)) = lastProcessedBlock s"
  "alertedTrades (snd (getMarketByConditionId w c s)) = alertedTrades s"
  "walletFirstSeen (snd (getMarketByConditionId w c s)) = walletFirstSeen s"
  "history (snd (getMarketByConditionId w c s)) = history s @ [GetMarkets c]"
  by (simp_all add: getMarketByConditionId_def Let_def split: sum.splits list.splits)

lemma sendDiscordAlert_frame:
  "lastProcessedBlock (snd (sendDiscordAlert cfg w td wi m s)) = lastProcessedBlock s"
  "alertedTrades (snd (sendDiscordAlert cfg w td wi m s)) = alertedTrades s"
  "walletFirstSeen (snd (sendDiscordAlert cfg w td wi m s)) = walletFirstSeen s"
  "queries (history (snd (sendDiscordAlert cfg w td wi m s))) = queries (history s)"
  by (simp_all add: sendDiscordAlert_def Let_def split: sum.splits)

lemma checkWalletAge_frameD:
  assumes "checkWalletAge cfg w a s = (wi, s')"
  shows "lastProcessedBlock s' = lastProcessedBlock s"
    and "alertedTrades s' = alertedTrades s"
    and "queries (history s') = queries (history s)"
  using checkWalletAge_frame [of cfg w a s] checkWalletAge_queries [of cfg w a s] assms by simp_all

lemma getMarket_frameD:
  assumes "getMarketByConditionId w c s = (m, s')"
  shows "lastProcessedBlock s' = lastProcessedBlock s"
    and "alertedTrades s' = alertedTrades s"
    and "walletFirstSeen s' = walletFirstSeen s"
    and "history s' = history s @ [GetMarkets c]"
  using getMarket_frame [of w c s] assms by simp_all

lemma sendDiscordAlert_frameD:
  assumes "sendDiscordAlert cfg w td wi m s = (d, s')"
  shows "lastProcessedBlock s' = lastProcessedBlock s"
    and "alertedTrades s' = alertedTrades s"
    and "walletFirstSeen s' = walletFirstSeen s"
    and "queries (history s') = queries (history s)"
  using sendDiscordAlert_frame [of cfg w td wi m s] assms by simp_all

lemma processEvent_cursor:
  "lastProcessedBlock (snd (processEvent cfg w ev s)) = lastProcessedBlock s"
  by (auto simp: processEvent_def Let_def checkWalletAge_frameD getMarket_frameD sendDiscordAlert_frameD
      split: event.splits prod.splits option.splits)

lemma processEvent_queries:
  "queries (history (snd (processEvent cfg w ev s))) = queries (history s)"
  by (auto simp: processEvent_def Let_def checkWalletAge_frameD getMarket_frameD sendDiscordAlert_frameD
      split: event.splits prod.splits option.splits)

lemma snd_processEvents_Cons:
  "snd (processEvents cfg w (ev # evs) s) = snd (processEvents cfg w evs (snd (processEvent cfg w ev s)))"
  by (simp split: prod.splits)

lemma processEvents_cursor:
  "lastProcessedBlock (snd (processEvents cfg w evs s)) = lastProcessedBlock s"
  by (induction evs arbitrary: s)
    (simp_all add: snd_processEvents_Cons processEvent_cursor del: processEvents.simps(2))

lemma processEvents_queries:
  "queries (history (snd (processEvents cfg w evs s))) = queries (history s)"
  by (induction evs arbitrary: s)
    (simp_all add: snd_processEvents_Cons processEvent_queries del: processEvents.simps(2))

section \<open>One call\<close>

lemma processEvents_queriesD:
  assumes "processEvents cfg w evs s = (outs, s')"
  shows "queries (history s') = queries (history s)"
  using processEvents_queries [of cfg w evs s] assms by simp

lemma tick_queries:
  "queries (history (snd (processBlockchainEvents cfg w s))) = queries (history s) @ tick_range w s"
  by (simp add: processBlockchainEvents_def tick_range_def Let_def processEvents_queriesD
      split: sum.splits prod.splits)

lemma tick_cursor:
  "lastProcessedBlock (snd (processBlockchainEvents cfg w s)) =
     (case getBlockNumber w (history s) of
        Inl e \<Rightarrow> lastProcessedBlock s
      | Inr currentBlock \<Rightarrow>
          if currentBlock \<le> lastProcessedBlock s then lastProcessedBlock s
          else (case queryFilter w (history s @ [GetBlockNumber]) (lastProcessedBlock s + 1)
                       (min currentBlock (lastProcessedBlock s + maxBlockRange)) of
                  Inl e \<Rightarrow> lastProcessedBlock s
                | Inr evs \<Rightarrow> min currentBlock (lastProcessedBlock s + maxBlockRange)))"
  by (simp add: processBlockchainEvents_def Let_def split: sum.splits prod.splits)

lemma tick_cursor_mono:
  "lastProcessedBlock s \<le> lastProcessedBlock (snd (processBlockchainEvents cfg w s))"
  by (simp add: tick_cursor maxBlockRange_def split: sum.splits)

section \<open>The alerted set: bound and eviction order\<close>

lemma markAlerted_eq:
  "markAlerted a k =
     (let a' = set_add a k in if length a' > MAX_STORED_ALERTS then tl a' else a')"
  by (simp add: markAlerted_def Let_def split: list.splits)

lemma in_set_tl:
  assumes "x \<in> set (tl xs)"
  shows "x \<in> set xs"
  using assms by (cases xs) auto

lemma markAlerted_new:
  assumes "k \<notin> set a" and "length a \<le> MAX_STORED_ALERTS"
  shows "markAlerted a k = drop (length a + 1 - MAX_STORED_ALERTS) (a @ [k])"
proof (cases "length a = MAX_STORED_ALERTS")
  case True
  then obtain x xs where a: "a = x # xs"
    by (cases a) (auto simp: MAX_STORED_ALERTS_def)
  from True have n: "length a + 1 - MAX_STORED_ALERTS = Suc 0"
    by simp
  have "markAlerted a k = xs @ [k]"
    using assms(1) True a by (simp add: markAlerted_eq set_add_def)
  then show ?thesis
    unfolding n by (simp add: a)
next
  case False
  with assms have n: "length a + 1 - MAX_STORED_ALERTS = 0"
    by simp
  have "markAlerted a k = a @ [k]"
    using assms False by (simp add: markAlerted_eq set_add_def)
  then show ?thesis
    unfolding n by simp
qed

lemma length_markAlerted:
  assumes "length a \<le> MAX_STORED_ALERTS"
  shows "length (markAlerted a k) \<le> MAX_STORED_ALERTS"
  using assms by (auto simp: markAlerted_eq set_add_def Let_def)

lemma distinct_markAlerted:
  assumes "distinct a"
  shows "distinct (markAlerted a k)"
  using assms by (auto simp: markAlerted_eq set_add_def Let_def distinct_tl)

lemma set_markAlerted_subset: "set (markAlerted a k) \<subseteq> insert k (set a)"
  by (auto simp: markAlerted_eq set_add_def Let_def dest: in_set_tl)

lemma markAlerted_mem:
  assumes "k \<notin> set a"
  shows "k \<in> set (markAlerted a k)"
proof (cases a)
  case Nil
  then show ?thesis
    by (simp add: markAlerted_eq set_add_def MAX_STORED_ALERTS_def)
next
  case (Cons x xs)
  then show ?thesis
    using assms by (simp add: markAlerted_eq set_add_def Let_def)
qed

lemma length_foldl_markAlerted:
  assumes "length a \<le> MAX_STORED_ALERTS"
  shows "length (foldl markAlerted a ks) \<le> MAX_STORED_ALERTS"
  using assms by (induction ks arbitrary: a) (simp_all add: length_markAlerted)

text \<open>First in, first out: of distinct new keys the set keeps the latest.\<close>

lemma foldl_markAlerted_fifo:
  assumes "distinct (a @ ks)" and "length a \<le> MAX_STORED_ALERTS"
  shows "foldl markAlerted a ks = drop (length (a @ ks) - MAX_STORED_ALERTS) (a @ ks)"
  using assms
proof (induction ks arbitrary: a)
  case Nil
  then show ?case by simp
next
  case (Cons k ks)
  let ?a' = "markAlerted a k"
  have new: "k \<notin> set a"
    using Cons.prems(1) by auto
  have a': "?a' = drop (length a + 1 - MAX_STORED_ALERTS) (a @ [k])"
    using new Cons.prems(2) by (rule markAlerted_new)
  have len: "length ?a' \<le> MAX_STORED_ALERTS"
    using Cons.prems(2) by (rule length_markAlerted)
  have "set ?a' \<subseteq> insert k (set a)"
    by (rule set_markAlerted_subset)
  moreover have "distinct ?a'"
    using Cons.prems(1) by (simp add: distinct_markAlerted)
  ultimately have dist: "distinct (?a' @ ks)"
    using Cons.prems(1) by auto
  have "foldl markAlerted a (k # ks) = foldl markAlerted ?a' ks"
    by simp
  also have "\<dots> = drop (length (?a' @ ks) - MAX_STORED_ALERTS) (?a' @ ks)"
    using dist len by (rule Cons.IH)
  also have "\<dots> = drop (length (a @ k # ks) - MAX_STORED_ALERTS) (a @ k # ks)"
  proof (cases "length a = MAX_STORED_ALERTS")
    case True
    then obtain x xs where a: "a = x # xs"
      by (cases a) (auto simp: MAX_STORED_ALERTS_def)
    from True a have m: "MAX_STORED_ALERTS = Suc (length xs)"
      by simp
    have xs: "?a' = xs @ [k]"
      using a' by (simp add: a m)
    show ?thesis
      unfolding xs by (simp add: a m)
  next
    case False
    with Cons.prems(2) have "?a' = a @ [k]"
      using a' by simp
    then show ?thesis by simp
  qed
  finally show ?case .
qed

text \<open>A key with fewer than the capacity's worth of keys behind it survives.\<close>

lemma markAlerted_keeps:
  assumes "a = pre @ k # post" and "length post + 1 < MAX_STORED_ALERTS"
  shows "\<exists>pre' post'. markAlerted a x = pre' @ k # post' \<and> length post' \<le> length post + 1"
proof -
  define post' where "post' = (if x \<in> set a then post else post @ [x])"
  have add: "set_add a x = pre @ k # post'"
    using assms(1) by (simp add: set_add_def post'_def)
  have len: "length post' \<le> length post + 1"
    by (simp add: post'_def)
  show ?thesis
  proof (cases pre)
    case Nil
    with add len assms(2) have "markAlerted a x = [] @ k # post'"
      by (simp add: markAlerted_eq)
    with len show ?thesis by blast
  next
    case (Cons p ps)
    with add have "markAlerted a x = pre @ k # post' \<or> markAlerted a x = ps @ k # post'"
      by (simp add: markAlerted_eq Let_def)
    with len show ?thesis by blast
  qed
qed

lemma foldl_markAlerted_keeps:
  assumes "a = pre @ k # post" and "length post + length ks < MAX_STORED_ALERTS"
  shows "k \<in> set (foldl markAlerted a ks)"
  using assms
proof (induction ks arbitrary: a pre post)
  case Nil
  then show ?case by simp
next
  case (Cons x ks)
  from Cons.prems have "length post + 1 < MAX_STORED_ALERTS"
    by simp
  with Cons.prems(1) obtain pre' post' where
    m: "markAlerted a x = pre' @ k # post'" and l: "length post' \<le> length post + 1"
    using markAlerted_keeps by blast
  from l Cons.prems(2) have "length post' + length ks < MAX_STORED_ALERTS"
    by simp
  with m have "k \<in> set (foldl markAlerted (markAlerted a x) ks)"
    by (rule Cons.IH)
  then show ?case by simp
qed

section \<open>The alerted set along the pipeline\<close>

lemma processEvent_undecoded: "processEvent cfg w UndecodedLog s = (ErrorProcessingEvent, s)"
  by (simp add: processEvent_def)

lemma processEvent_dedup:
  assumes "\<not> tradeAmountOf args < MIN_BET_AMOUNT cfg"
    and "alertKeyOf args (dateNow w (history s)) \<in> set (alertedTrades s)"
  shows "processEvent cfg w (EventLog args) s = (AlreadyAlerted, s\<lparr>history := history s @ [DateNow]\<rparr>)"
  using assms by (simp add: processEvent_def Let_def)

lemma processEvent_not_sent:
  assumes "\<forall>d. fst (processEvent cfg w ev s) \<noteq> AlertSent d"
  shows "alertedTrades (snd (processEvent cfg w ev s)) = alertedTrades s"
  using assms
  by (auto simp: processEvent_def Let_def checkWalletAge_frameD getMarket_frameD
      split: event.splits prod.splits option.splits if_splits)

lemma processEvent_sent:
  assumes "fst (processEvent cfg w (EventLog args) s) = AlertSent d"
  shows "alertedTrades (snd (processEvent cfg w (EventLog args) s)) =
           markAlerted (alertedTrades s) (alertKeyOf args (dateNow w (history s)))"
    and "alertKeyOf args (dateNow w (history s)) \<notin> set (alertedTrades s)"
    and "\<not> tradeAmountOf args < MIN_BET_AMOUNT cfg"
  using assms
  by (auto simp: processEvent_def Let_def checkWalletAge_frameD getMarket_frameD sendDiscordAlert_frameD
      split: prod.splits option.splits if_splits)

lemma processEvent_alerted_cases:
  "alertedTrades (snd (processEvent cfg w ev s)) = alertedTrades s \<or>
   (\<exists>k. alertedTrades (snd (processEvent cfg w ev s)) = markAlerted (alertedTrades s) k)"
proof (cases "\<exists>d. fst (processEvent cfg w ev s) = AlertSent d")
  case True
  then obtain d where d: "fst (processEvent cfg w ev s) = AlertSent d"
    by blast
  then obtain args where "ev = EventLog args"
    by (cases ev) (simp_all add: processEvent_undecoded)
  with d show ?thesis
    using processEvent_sent(1) by blast
next
  case False
  then show ?thesis
    using processEvent_not_sent by blast
qed

lemma processEvents_alerted:
  "\<exists>ks. length ks \<le> length evs \<and>
        alertedTrades (snd (processEvents cfg w evs s)) = foldl markAlerted (alertedTrades s) ks"
proof (induction evs arbitrary: s)
  case Nil
  show ?case by simp
next
  case (Cons ev evs)
  let ?s1 = "snd (processEvent cfg w ev s)"
  from Cons.IH [of ?s1] obtain ks where
    ks: "length ks \<le> length evs"
      "alertedTrades (snd (processEvents cfg w evs ?s1)) = foldl markAlerted (alertedTrades ?s1) ks"
    by blast
  from processEvent_alerted_cases [of cfg w ev s] show ?case
  proof
    assume "alertedTrades ?s1 = alertedTrades s"
    with ks have "length ks \<le> length (ev # evs) \<and>
        alertedTrades (snd (processEvents cfg w (ev # evs) s)) = foldl markAlerted (alertedTrades s) ks"
      by (simp add: snd_processEvents_Cons del: processEvents.simps(2))
    then show ?thesis by blast
  next
    assume "\<exists>k. alertedTrades ?s1 = markAlerted (alertedTrades s) k"
    then obtain k where "alertedTrades ?s1 = markAlerted (alertedTrades s) k"
      by blast
    with ks have "length (k # ks) \<le> length (ev # evs) \<and>
        alertedTrades (snd (processEvents cfg w (ev # evs) s)) = foldl markAlerted (alertedTrades s) (k # ks)"
      by (simp add: snd_processEvents_Cons del: processEvents.simps(2))
    then show ?thesis by blast
  qed
qed

lemma tick_alerted:
  "\<exists>ks. alertedTrades (snd (processBlockchainEvents cfg w s)) = foldl markAlerted (alertedTrades s) ks"
proof -
  have nil: "alertedTrades s = foldl markAlerted (alertedTrades s) []"
    by simp
  show ?thesis
  proof (cases "getBlockNumber w (history s)")
    case (Inl e)
    then have "alertedTrades (snd (processBlockchainEvents cfg w s)) = alertedTrades s"
      by (simp add: processBlockchainEvents_def)
    with nil show ?thesis by metis
  next
    case (Inr cur)
    show ?thesis
    proof (cases "queryFilter w (history s @ [GetBlockNumber]) (lastProcessedBlock s + 1)
                    (min cur (lastProcessedBlock s + maxBlockRange))")
      case (Inl e)
      with Inr have "alertedTrades (snd (processBlockchainEvents cfg w s)) = alertedTrades s"
        by (simp add: processBlockchainEvents_def Let_def)
      with nil show ?thesis by metis
    next
      case evs: (Inr evs)
      let ?s2 = "s\<lparr>history := history s @ [GetBlockNumber,
          QueryFilter (lastProcessedBlock s + 1) (min cur (lastProcessedBlock s + maxBlockRange))]\<rparr>"
      have "alertedTrades (snd (processBlockchainEvents cfg w s)) = alertedTrades s \<or>
          alertedTrades (snd (processBlockchainEvents cfg w s)) = alertedTrades (snd (processEvents cfg w evs ?s2))"
        using Inr evs by (simp add: processBlockchainEvents_def Let_def split: prod.splits)
      then show ?thesis
        using nil processEvents_alerted [of evs cfg w ?s2] by (metis state.select_convs(2) state.surjective state.update_convs(4))
    qed
  qed
qed

section \<open>The alerted set when calls overlap\<close>

lemma enterCheckWalletAge_alerted:
  "alertedTrades (snd (enterCheckWalletAge cfg w fr s)) = alertedTrades s"
  by (simp add: enterCheckWalletAge_def Let_def split: option.splits)

lemma forEvents_alerted:
  "alertedTrades (snd (forEvents cfg w toBlock evs s)) = alertedTrades s"
proof (induction cfg w toBlock evs s rule: forEvents.induct)
  case (1 cfg w toBlock s)
  show ?case by simp
next
  case (2 cfg w toBlock rest s)
  then show ?case by simp
next
  case (3 cfg w toBlock args rest s)
  let ?s1 = "s\<lparr>history := history s @ [DateNow]\<rparr>"
  let ?fr = "\<lparr>toBlock_of = toBlock, rest_of = rest, args_of = args,
             alertKey_of = alertKeyOf args (dateNow w (history s))\<rparr>"
  obtain t s2 where e: "enterCheckWalletAge cfg w ?fr ?s1 = (t, s2)"
    by (cases "enterCheckWalletAge cfg w ?fr ?s1")
  then have "alertedTrades s2 = alertedTrades s"
    using enterCheckWalletAge_alerted [of cfg w ?fr ?s1] by simp
  with 3 e show ?case
    by (simp add: Let_def)
qed

lemma resume_alerted:
  "alertedTrades (snd (resume cfg w t s)) = alertedTrades s \<or>
   (\<exists>k. alertedTrades (snd (resume cfg w t s)) = markAlerted (alertedTrades s) k)"
proof (cases t)
  case (AwaitMarket fr wi mk)
  then show ?thesis
    by (cases mk) (simp_all add: forEvents_alerted Let_def)
next
  case (AwaitAlert fr sent)
  then show ?thesis
    by auto
qed (simp_all add: forEvents_alerted Let_def split: sum.splits option.splits list.splits nat.splits)

lemma resume_bounded:
  assumes "length (alertedTrades s) \<le> MAX_STORED_ALERTS"
  shows "length (alertedTrades (snd (resume cfg w t s))) \<le> MAX_STORED_ALERTS"
  using resume_alerted [of cfg w t s] assms length_markAlerted by auto

lemma occur_bounded:
  assumes "length (alertedTrades (shared p)) \<le> MAX_STORED_ALERTS"
  shows "length (alertedTrades (shared (occur cfg w p oc))) \<le> MAX_STORED_ALERTS"
proof (cases oc)
  case TimerFires
  with assms show ?thesis
    by (simp add: occur_def)
next
  case (Completes i)
  show ?thesis
  proof (cases "i < length (calls p)")
    case True
    have "shared (occur cfg w p oc) = snd (resume cfg w (calls p ! i) (shared p))"
      using Completes True by (simp add: occur_def split: prod.splits option.splits)
    with assms show ?thesis
      by (simp add: resume_bounded)
  next
    case False
    with Completes assms show ?thesis
      by (simp add: occur_def)
  qed
qed

lemma run_bounded:
  assumes "length (alertedTrades (shared p)) \<le> MAX_STORED_ALERTS"
  shows "length (alertedTrades (shared (run cfg w ocs p))) \<le> MAX_STORED_ALERTS"
  using assms unfolding run_def
  by (induction ocs arbitrary: p) (simp_all add: occur_bounded)

lemma replicate_14: "replicate 14 x = [x, x, x, x, x, x, x, x, x, x, x, x, x, x]"
  by (simp add: eval_nat_numeral)

section \<open>A call that runs alone\<close>

lemma alone_add: "alone cfg w (m + n) x = alone cfg w n (alone cfg w m x)"
proof (induction m arbitrary: x)
  case 0
  show ?case by simp
next
  case (Suc m)
  obtain t s where x: "x = (t, s)"
    by (cases x)
  show ?case
  proof (cases t)
    case None
    have "alone cfg w k (None, s) = (None, s)" for k
      by (cases k) simp_all
    with x None show ?thesis by simp
  next
    case (Some t')
    with x Suc.IH show ?thesis by simp
  qed
qed

lemma reaches_refl: "reaches cfg w x x"
  unfolding reaches_def by (rule exI [of _ 0]) simp

lemma reaches_trans:
  assumes "reaches cfg w x y" and "reaches cfg w y z"
  shows "reaches cfg w x z"
proof -
  from assms obtain m n where "alone cfg w m x = y" and "alone cfg w n y = z"
    unfolding reaches_def by blast
  then have "alone cfg w (m + n) x = z"
    by (simp add: alone_add)
  then show ?thesis
    unfolding reaches_def by blast
qed

lemma reaches_step:
  assumes "reaches cfg w (resume cfg w t s) y"
  shows "reaches cfg w (Some t, s) y"
proof -
  from assms obtain n where "alone cfg w n (resume cfg w t s) = y"
    unfolding reaches_def by blast
  then have "alone cfg w (Suc n) (Some t, s) = y"
    by simp
  then show ?thesis
    unfolding reaches_def by blast
qed

text \<open>The probes of the balance, one \<open>await\<close> each, make the loop of lines 393--399.\<close>

lemma afterSearch_history:
  "afterSearch fr (s\<lparr>history := h\<rparr>) res = afterSearch fr s res"
  by (simp add: afterSearch_def split: prod.splits sum.splits)

lemma search_alone:
  "reaches cfg w (Some (AwaitBalance fr cur win k f), s)
     (afterSearch fr s (findFirstTxBlock w (maker (args_of fr)) cur win (Suc k) f (history s)))"
proof (induction k arbitrary: f s)
  case 0
  show ?case
    by (rule reaches_step) (simp add: afterSearch_def Let_def reaches_refl split: sum.splits)
next
  case (Suc k)
  let ?a = "maker (args_of fr)"
  let ?m = "(cur - win + f) div 2"
  let ?s1 = "s\<lparr>history := history s @ [GetBalance ?a ?m]\<rparr>"
  show ?case
  proof (cases "getBalance w (history s) ?a ?m")
    case (Inl e)
    then show ?thesis
      by (intro reaches_step) (simp add: afterSearch_def Let_def reaches_refl)
  next
    case (Inr b)
    let ?f' = "if b > 0 then ?m else f"
    have r: "resume cfg w (AwaitBalance fr cur win (Suc k) f) s = (Some (AwaitBalance fr cur win k ?f'), ?s1)"
      using Inr by (simp add: Let_def)
    have ff: "findFirstTxBlock w ?a cur win (Suc (Suc k)) f (history s) =
        findFirstTxBlock w ?a cur win (Suc k) ?f' (history ?s1)"
      using Inr by (subst findFirstTxBlock.simps(2)) (simp add: Let_def del: findFirstTxBlock.simps)
    have "reaches cfg w (Some (AwaitBalance fr cur win k ?f'), ?s1)
       (afterSearch fr ?s1 (findFirstTxBlock w ?a cur win (Suc k) ?f' (history ?s1)))"
      by (rule Suc.IH)
    then show ?thesis
      unfolding ff afterSearch_history by (intro reaches_step) (simp only: r)
  qed
qed

lemma checkWalletAge_alone:
  "reaches cfg w (case enterCheckWalletAge cfg w fr s of (t, s') \<Rightarrow> (Some t, s'))
     (case checkWalletAge cfg w (maker (args_of fr)) s of
        (walletInfo, s') \<Rightarrow> (Some (AwaitWalletAge fr walletInfo), s'))"
proof (cases "walletFirstSeen s (maker (args_of fr))")
  case (Some firstSeenTime)
  then show ?thesis
    by (simp add: enterCheckWalletAge_def checkWalletAge_def Let_def reaches_refl)
next
  case None
  let ?a = "maker (args_of fr)"
  let ?h1 = "history s @ [GetTransactionCount ?a]"
  let ?s1 = "s\<lparr>history := ?h1\<rparr>"
  have enter: "(case enterCheckWalletAge cfg w fr s of (t, s') \<Rightarrow> (Some t, s')) = (Some (AwaitTxCount fr), s)"
    using None by (simp add: enterCheckWalletAge_def)
  show ?thesis
  proof (cases "getTransactionCount w (history s) ?a")
    case (Inl e)
    with None show ?thesis
      unfolding enter
      by (intro reaches_step) (simp add: checkWalletAge_def Let_def reaches_refl)
  next
    case count: (Inr txCount)
    show ?thesis
    proof (cases "txCount \<le> 10")
      case False
      with None count show ?thesis
        unfolding enter
        by (intro reaches_step) (simp add: checkWalletAge_def Let_def reaches_refl)
    next
      case True
      show ?thesis
      proof (cases "getBlockNumber w ?h1")
        case (Inl e)
        with None count True show ?thesis
          unfolding enter
          by (rule_tac reaches_step, simp add: Let_def, rule_tac reaches_step)
            (simp add: checkWalletAge_def Let_def reaches_refl)
      next
        case height: (Inr cur)
        let ?s2 = "s\<lparr>history := ?h1 @ [GetBlockNumber]\<rparr>"
        let ?win = "min 10000 cur"
        obtain r h3 where search: "findFirstTxBlock w ?a cur ?win 5 cur (history ?s2) = (r, h3)"
          by (cases "findFirstTxBlock w ?a cur ?win 5 cur (history ?s2)")
        have five: "Suc 4 = (5 :: nat)"
          by simp
        have probes: "reaches cfg w (Some (AwaitBalance fr cur ?win 4 cur), ?s2) (afterSearch fr s (r, h3))"
          using search_alone [of cfg w fr cur ?win 4 cur ?s2] search
          by (simp only: five afterSearch_history)
        have start: "reaches cfg w (Some (AwaitTxCount fr), s) (Some (AwaitBalance fr cur ?win 4 cur), ?s2)"
          using count True height
          by (rule_tac reaches_step, simp add: Let_def, rule_tac reaches_step)
            (simp add: Let_def reaches_refl)
        have big: "checkWalletAge cfg w ?a s =
            (case r of
               Inl e \<Rightarrow> (fail_open LowTxCount, s\<lparr>history := h3\<rparr>)
             | Inr f' \<Rightarrow>
                 (case getBlock w h3 f' of
                    Inl e \<Rightarrow> (fail_open LowTxCount, s\<lparr>history := h3 @ [GetBlock f']\<rparr>)
                  | Inr None \<Rightarrow> (fail_open LowTxCount, s\<lparr>history := h3 @ [GetBlock f']\<rparr>)
                  | Inr (Some blk) \<Rightarrow>
                      (age_info cfg ((dateNow w (h3 @ [GetBlock f']) - timestamp blk * 1000) div DAY_MS),
                       s\<lparr>walletFirstSeen := (walletFirstSeen s)(?a \<mapsto> timestamp blk * 1000),
                         history := h3 @ [GetBlock f', DateNow]\<rparr>)))"
          using None count True height search
          by (simp add: checkWalletAge_def Let_def split: sum.splits option.splits)
        show ?thesis
        proof (cases r)
          case (Inl e)
          with probes have "reaches cfg w (Some (AwaitBalance fr cur ?win 4 cur), ?s2)
              (Some (AwaitWalletAge fr (fail_open LowTxCount)), s\<lparr>history := h3\<rparr>)"
            by (simp add: afterSearch_def)
          with start have "reaches cfg w (Some (AwaitTxCount fr), s)
              (Some (AwaitWalletAge fr (fail_open LowTxCount)), s\<lparr>history := h3\<rparr>)"
            by (rule reaches_trans)
          with Inl big show ?thesis
            unfolding enter by simp
        next
          case found: (Inr f')
          have last: "reaches cfg w (Some (AwaitBlock fr f'), s\<lparr>history := h3\<rparr>)
              (case checkWalletAge cfg w ?a s of (walletInfo, s') \<Rightarrow> (Some (AwaitWalletAge fr walletInfo), s'))"
            unfolding big found
            by (intro reaches_step) (simp add: Let_def reaches_refl split: sum.splits option.splits)
          from probes found have "reaches cfg w (Some (AwaitBalance fr cur ?win 4 cur), ?s2)
              (Some (AwaitBlock fr f'), s\<lparr>history := h3\<rparr>)"
            by (simp add: afterSearch_def)
          with start last show ?thesis
            unfolding enter by (blast intro: reaches_trans)
        qed
      qed
    qed
  qed
qed

lemma reaches_resume:
  assumes "resume cfg w t s = x" and "reaches cfg w x y"
  shows "reaches cfg w (Some t, s) y"
  using assms by (intro reaches_step) simp

text \<open>\<open>sendDiscordAlert\<close> posts the embed that \<open>alertEmbed\<close> builds.\<close>

lemma sendDiscordAlert_embed:
  assumes "DISCORD_WEBHOOK cfg \<noteq> []"
  shows "sendDiscordAlert cfg w
      \<lparr>wallet = maker args, amount = tradeAmountOf args,
       outcome = getOutcomeFromAssetId (makerAssetId args), tradeHash = h\<rparr> walletInfo mkt s =
    (case postWebhook w (history s @ [DateNow]) (alertEmbed args walletInfo mkt (dateNow w (history s))) of
       Inl err \<Rightarrow> DeliveryFailed | Inr u \<Rightarrow> Delivered,
     s\<lparr>history := history s @ [DateNow, PostWebhook (alertEmbed args walletInfo mkt (dateNow w (history s)))]\<rparr>)"
  using assms by (simp add: sendDiscordAlert_def alertEmbed_def Let_def split: sum.split)

text \<open>From the return of \<open>checkWalletAge\<close> to the next event (lines 602--645).\<close>

lemma alert_alone:
  assumes "args_of fr = args" and "alertKey_of fr = alertKeyOf args now"
  shows "reaches cfg w (Some (AwaitWalletAge fr walletInfo), s2)
     (forEvents cfg w (toBlock_of fr) (rest_of fr)
        (if \<not> isNew walletInfo then s2
         else case getMarketByConditionId w (take 66 (toString (makerAssetId args))) s2 of
           (None, s3) \<Rightarrow> s3
         | (Some mkt, s3) \<Rightarrow>
             if m_closed mkt = Some True \<or> m_active mkt = Some False then s3
             else case sendDiscordAlert cfg w
                    \<lparr>wallet = maker args, amount = tradeAmountOf args,
                     outcome = getOutcomeFromAssetId (makerAssetId args),
                     tradeHash = orderHash args\<rparr> walletInfo mkt s3 of
               (sent, s4) \<Rightarrow>
                 s4\<lparr>alertedTrades := markAlerted (alertedTrades s4) (alertKeyOf args now),
                    history := history s4 @ [Sleep 2000]\<rparr>))"
proof (cases "isNew walletInfo")
  case False
  then show ?thesis
    by (intro reaches_step) (simp add: reaches_refl)
next
  case True
  let ?cid = "take 66 (toString (makerAssetId args))"
  note fr = assms
  let ?s3 = "s2\<lparr>history := history s2 @ [GetMarkets ?cid]\<rparr>"
  have "snd (getMarketByConditionId w ?cid s2) = ?s3"
    by (simp add: getMarketByConditionId_def Let_def split: sum.split list.split)
  then obtain mk where mk: "getMarketByConditionId w ?cid s2 = (mk, ?s3)"
    by (cases "getMarketByConditionId w ?cid s2") simp
  have r1: "resume cfg w (AwaitWalletAge fr walletInfo) s2 = (Some (AwaitMarkets fr walletInfo), s2)"
    using True by simp
  have r2: "resume cfg w (AwaitMarkets fr walletInfo) s2 = (Some (AwaitMarket fr walletInfo mk), ?s3)"
    using mk fr by (auto simp: getMarketByConditionId_def Let_def split: sum.splits list.splits)
  show ?thesis
  proof (cases mk)
    case None
    then have r3: "resume cfg w (AwaitMarket fr walletInfo mk) ?s3 =
        forEvents cfg w (toBlock_of fr) (rest_of fr) ?s3"
      by simp
    from reaches_refl have "reaches cfg w (Some (AwaitWalletAge fr walletInfo), s2)
        (forEvents cfg w (toBlock_of fr) (rest_of fr) ?s3)"
      by (intro reaches_resume [OF r1] reaches_resume [OF r2] reaches_resume [OF r3])
    with True mk None show ?thesis
      by simp
  next
    case (Some mkt)
    show ?thesis
    proof (cases "m_closed mkt = Some True \<or> m_active mkt = Some False")
      case shut: True
      with Some have r3: "resume cfg w (AwaitMarket fr walletInfo mk) ?s3 =
          forEvents cfg w (toBlock_of fr) (rest_of fr) ?s3"
        by simp
      from reaches_refl have "reaches cfg w (Some (AwaitWalletAge fr walletInfo), s2)
          (forEvents cfg w (toBlock_of fr) (rest_of fr) ?s3)"
        by (intro reaches_resume [OF r1] reaches_resume [OF r2] reaches_resume [OF r3])
      with True mk Some shut show ?thesis
        by simp
    next
      case live: False
      let ?td = "\<lparr>wallet = maker args, amount = tradeAmountOf args,
                  outcome = getOutcomeFromAssetId (makerAssetId args),
                  tradeHash = orderHash args\<rparr>"
      let ?key = "alertKeyOf args now"
      obtain sent s4 where send: "sendDiscordAlert cfg w ?td walletInfo mkt ?s3 = (sent, s4)"
        by (cases "sendDiscordAlert cfg w ?td walletInfo mkt ?s3")
      let ?s5 = "s4\<lparr>alertedTrades := markAlerted (alertedTrades s4) ?key\<rparr>"
      let ?s6 = "s4\<lparr>alertedTrades := markAlerted (alertedTrades s4) ?key, history := history s4 @ [Sleep 2000]\<rparr>"
      have to_alert: "reaches cfg w (Some (AwaitMarket fr walletInfo mk), ?s3) (Some (AwaitAlert fr sent), s4)"
      proof (cases "DISCORD_WEBHOOK cfg = []")
        case True
        with send have "sent = NotConfigured" and "s4 = ?s3"
          by (simp_all add: sendDiscordAlert_def)
        with True Some live fr show ?thesis
          by (intro reaches_step) (simp add: reaches_refl)
      next
        case False
        let ?e = "alertEmbed args walletInfo mkt (dateNow w (history ?s3))"
        let ?h1 = "history ?s3 @ [DateNow]"
        have r: "resume cfg w (AwaitMarket fr walletInfo mk) ?s3 = (Some (AwaitPost fr ?e), ?s3\<lparr>history := ?h1\<rparr>)"
          using False Some live fr by (simp add: Let_def)
        have r': "resume cfg w (AwaitPost fr ?e) (?s3\<lparr>history := ?h1\<rparr>) = (Some (AwaitAlert fr sent), s4)"
        proof (cases "postWebhook w ?h1 ?e")
          case (Inl err)
          with False send have "sent = DeliveryFailed" and "s4 = ?s3\<lparr>history := ?h1 @ [PostWebhook ?e]\<rparr>"
            by (simp_all add: sendDiscordAlert_embed)
          with Inl show ?thesis
            by simp
        next
          case (Inr u)
          with False send have "sent = Delivered" and "s4 = ?s3\<lparr>history := ?h1 @ [PostWebhook ?e]\<rparr>"
            by (simp_all add: sendDiscordAlert_embed)
          with Inr show ?thesis
            by simp
        qed
        show ?thesis
          by (intro reaches_resume [OF r] reaches_resume [OF r'] reaches_refl)
      qed
      have r4: "resume cfg w (AwaitAlert fr sent) s4 = (Some (AwaitPacing fr), ?s5)"
        using assms by simp
      have r5: "resume cfg w (AwaitPacing fr) ?s5 = forEvents cfg w (toBlock_of fr) (rest_of fr) ?s6"
        by simp
      have "reaches cfg w (Some (AwaitAlert fr sent), s4) (forEvents cfg w (toBlock_of fr) (rest_of fr) ?s6)"
        by (intro reaches_resume [OF r4] reaches_resume [OF r5] reaches_refl)
      with to_alert have "reaches cfg w (Some (AwaitMarket fr walletInfo mk), ?s3)
          (forEvents cfg w (toBlock_of fr) (rest_of fr) ?s6)"
        by (rule reaches_trans)
      then have "reaches cfg w (Some (AwaitWalletAge fr walletInfo), s2)
          (forEvents cfg w (toBlock_of fr) (rest_of fr) ?s6)"
        by (intro reaches_resume [OF r1] reaches_resume [OF r2])
      with True mk Some live send show ?thesis
        by simp
    qed
  qed
qed

text \<open>One event of the loop, from its first line to the next event.\<close>

lemma event_alone:
  "reaches cfg w (forEvents cfg w toBlock (ev # rest) s)
     (forEvents cfg w toBlock rest (snd (processEvent cfg w ev s)))"
proof (cases ev)
  case UndecodedLog
  then show ?thesis
    by (simp add: processEvent_def reaches_refl)
next
  case (EventLog args)
  let ?now = "dateNow w (history s)"
  let ?key = "alertKeyOf args ?now"
  let ?s1 = "s\<lparr>history := history s @ [DateNow]\<rparr>"
  let ?fr = "\<lparr>toBlock_of = toBlock, rest_of = rest, args_of = args, alertKey_of = ?key\<rparr>"
  show ?thesis
  proof (cases "tradeAmountOf args < MIN_BET_AMOUNT cfg \<or> ?key \<in> set (alertedTrades s)")
    case True
    with EventLog show ?thesis
      by (auto simp: processEvent_def Let_def reaches_refl)
  next
    case proceeds: False
    obtain walletInfo s2 where age: "checkWalletAge cfg w (maker args) ?s1 = (walletInfo, s2)"
      by (cases "checkWalletAge cfg w (maker args) ?s1")
    have "reaches cfg w (case enterCheckWalletAge cfg w ?fr ?s1 of (t, s') \<Rightarrow> (Some t, s'))
        (Some (AwaitWalletAge ?fr walletInfo), s2)"
      using checkWalletAge_alone [of cfg w ?fr ?s1] age by simp
    moreover have "forEvents cfg w toBlock (ev # rest) s =
        (case enterCheckWalletAge cfg w ?fr ?s1 of (t, s') \<Rightarrow> (Some t, s'))"
      using EventLog proceeds by (simp add: Let_def)
    ultimately have first: "reaches cfg w (forEvents cfg w toBlock (ev # rest) s)
        (Some (AwaitWalletAge ?fr walletInfo), s2)"
      by simp
    let ?after = "if \<not> isNew walletInfo then s2
         else case getMarketByConditionId w (take 66 (toString (makerAssetId args))) s2 of
           (None, s3) \<Rightarrow> s3
         | (Some mkt, s3) \<Rightarrow>
             if m_closed mkt = Some True \<or> m_active mkt = Some False then s3
             else case sendDiscordAlert cfg w
                    \<lparr>wallet = maker args, amount = tradeAmountOf args,
                     outcome = getOutcomeFromAssetId (makerAssetId args),
                     tradeHash = orderHash args\<rparr> walletInfo mkt s3 of
               (sent, s4) \<Rightarrow>
                 s4\<lparr>alertedTrades := markAlerted (alertedTrades s4) ?key,
                    history := history s4 @ [Sleep 2000]\<rparr>"
    have "args_of ?fr = args" and "alertKey_of ?fr = alertKeyOf args ?now"
      by simp_all
    from alert_alone [OF this, of cfg w walletInfo s2]
    have rest: "reaches cfg w (Some (AwaitWalletAge ?fr walletInfo), s2)
        (forEvents cfg w toBlock rest ?after)"
      by simp
    have "snd (processEvent cfg w ev s) = ?after"
    proof (cases "isNew walletInfo")
      case False
      with EventLog proceeds age show ?thesis
        by (simp add: processEvent_def Let_def)
    next
      case True
      obtain mk s3 where mk: "getMarketByConditionId w (take 66 (toString (makerAssetId args))) s2 = (mk, s3)"
        by (cases "getMarketByConditionId w (take 66 (toString (makerAssetId args))) s2")
      show ?thesis
      proof (cases mk)
        case None
        with True mk EventLog proceeds age show ?thesis
          by (simp add: processEvent_def Let_def)
      next
        case (Some mkt)
        obtain sent s4 where "sendDiscordAlert cfg w
            \<lparr>wallet = maker args, amount = tradeAmountOf args,
             outcome = getOutcomeFromAssetId (makerAssetId args),
             tradeHash = orderHash args\<rparr> walletInfo mkt s3 = (sent, s4)"
          by (cases "sendDiscordAlert cfg w
            \<lparr>wallet = maker args, amount = tradeAmountOf args,
             outcome = getOutcomeFromAssetId (makerAssetId args),
             tradeHash = orderHash args\<rparr> walletInfo mkt s3")
        with Some True mk EventLog proceeds age show ?thesis
          by (simp add: processEvent_def Let_def)
      qed
    qed
    with rest have "reaches cfg w (Some (AwaitWalletAge ?fr walletInfo), s2)
        (forEvents cfg w toBlock rest (snd (processEvent cfg w ev s)))"
      by simp
    with first show ?thesis
      by (rule reaches_trans)
  qed
qed

lemma events_alone:
  "reaches cfg w (forEvents cfg w toBlock evs s)
     (None, (snd (processEvents cfg w evs s))\<lparr>lastProcessedBlock := toBlock\<rparr>)"
proof (induction evs arbitrary: s)
  case Nil
  show ?case
    by (simp add: reaches_refl)
next
  case (Cons ev evs)
  have "reaches cfg w (forEvents cfg w toBlock (ev # evs) s)
      (forEvents cfg w toBlock evs (snd (processEvent cfg w ev s)))"
    by (rule event_alone)
  moreover have "reaches cfg w (forEvents cfg w toBlock evs (snd (processEvent cfg w ev s)))
      (None, (snd (processEvents cfg w (ev # evs) s))\<lparr>lastProcessedBlock := toBlock\<rparr>)"
    using Cons.IH [of "snd (processEvent cfg w ev s)"]
    by (simp only: snd_processEvents_Cons)
  ultimately show ?case
    by (rule reaches_trans)
qed

text \<open>
  A call that runs alone from its start to its end leaves the state that
  \<open>processBlockchainEvents\<close> computes.
\<close>

lemma call_alone:
  "reaches cfg w (Some AwaitHeight, s) (None, snd (processBlockchainEvents cfg w s))"
proof (cases "getBlockNumber w (history s)")
  case (Inl e)
  then show ?thesis
    by (intro reaches_step) (simp add: processBlockchainEvents_def reaches_refl)
next
  case (Inr cur)
  let ?s1 = "s\<lparr>history := history s @ [GetBlockNumber]\<rparr>"
  let ?to = "min cur (lastProcessedBlock s + maxBlockRange)"
  let ?from = "lastProcessedBlock s + 1"
  let ?s2 = "s\<lparr>history := history s @ [GetBlockNumber, QueryFilter ?from ?to]\<rparr>"
  show ?thesis
  proof (cases "cur \<le> lastProcessedBlock s")
    case True
    with Inr show ?thesis
      by (intro reaches_step) (simp add: processBlockchainEvents_def reaches_refl)
  next
    case False
    have r1: "resume cfg w AwaitHeight s = (Some (AwaitLogs ?from ?to), ?s1)"
      using Inr False by (simp add: Let_def)
    show ?thesis
    proof (cases "queryFilter w (history ?s1) ?from ?to")
      case (Inl e)
      then have r2: "resume cfg w (AwaitLogs ?from ?to) ?s1 = (None, ?s2)"
        by (simp add: Let_def)
      have "snd (processBlockchainEvents cfg w s) = ?s2"
        using Inr False Inl by (simp add: processBlockchainEvents_def Let_def)
      then show ?thesis
        by (simp only:) (intro reaches_resume [OF r1] reaches_resume [OF r2] reaches_refl)
    next
      case logs: (Inr evs)
      then have r2: "resume cfg w (AwaitLogs ?from ?to) ?s1 = forEvents cfg w ?to evs ?s2"
        by (simp add: Let_def)
      have "snd (processBlockchainEvents cfg w s) = (snd (processEvents cfg w evs ?s2))\<lparr>lastProcessedBlock := ?to\<rparr>"
        using Inr False logs by (simp add: processBlockchainEvents_def Let_def split: prod.splits)
      then show ?thesis
        by (simp only:) (intro reaches_resume [OF r1] reaches_resume [OF r2] events_alone)
    qed
  qed
qed

text \<open>
  In terms of the process: when the timer fires and the operations the call awaits
  complete before the timer fires again, the process is idle again, in the state that
  \<open>processBlockchainEvents\<close> computes.
\<close>

lemma alone_ended: "alone cfg w n (None, s) = (None, s)"
  by (cases n) simp_all

lemma run_ended: "run cfg w (replicate n (Completes 0)) \<lparr>shared = s, calls = []\<rparr> = \<lparr>shared = s, calls = []\<rparr>"
  by (induction n) (simp_all add: run_def occur_def)

lemma run_alone:
  "run cfg w (replicate n (Completes 0)) \<lparr>shared = s, calls = [t]\<rparr> =
     (case alone cfg w n (Some t, s) of
        (None, s') \<Rightarrow> \<lparr>shared = s', calls = []\<rparr>
      | (Some t', s') \<Rightarrow> \<lparr>shared = s', calls = [t']\<rparr>)"
proof (induction n arbitrary: t s)
  case 0
  show ?case
    by (simp add: run_def)
next
  case (Suc n)
  obtain next_task s' where r: "resume cfg w t s = (next_task, s')"
    by (cases "resume cfg w t s")
  show ?case
  proof (cases next_task)
    case None
    with r have "occur cfg w \<lparr>shared = s, calls = [t]\<rparr> (Completes 0) = \<lparr>shared = s', calls = []\<rparr>"
      by (simp add: occur_def)
    then have "run cfg w (replicate (Suc n) (Completes 0)) \<lparr>shared = s, calls = [t]\<rparr> =
        run cfg w (replicate n (Completes 0)) \<lparr>shared = s', calls = []\<rparr>"
      by (simp add: run_def)
    with r None show ?thesis
      by (simp add: run_ended alone_ended)
  next
    case (Some t')
    with r have "occur cfg w \<lparr>shared = s, calls = [t]\<rparr> (Completes 0) = \<lparr>shared = s', calls = [t']\<rparr>"
      by (simp add: occur_def)
    then have "run cfg w (replicate (Suc n) (Completes 0)) \<lparr>shared = s, calls = [t]\<rparr> =
        run cfg w (replicate n (Completes 0)) \<lparr>shared = s', calls = [t']\<rparr>"
      by (simp add: run_def)
    with r Some Suc.IH [where t = t' and s = s'] show ?thesis
      by simp
  qed
qed

lemma call_alone_run:
  "\<exists>n. run cfg w (TimerFires # replicate n (Completes 0)) (idle s) =
     idle (snd (processBlockchainEvents cfg w s))"
proof -
  from call_alone [of cfg w s] obtain n
    where n: "alone cfg w n (Some AwaitHeight, s) = (None, snd (processBlockchainEvents cfg w s))"
    unfolding reaches_def by blast
  have "run cfg w (TimerFires # replicate n (Completes 0)) (idle s) =
      run cfg w (replicate n (Completes 0)) \<lparr>shared = s, calls = [AwaitHeight]\<rparr>"
    by (simp add: run_def occur_def idle_def)
  with n have "run cfg w (TimerFires # replicate n (Completes 0)) (idle s) =
      idle (snd (processBlockchainEvents cfg w s))"
    by (simp add: run_alone idle_def)
  then show ?thesis ..
qed

section \<open>The block cursor when calls overlap\<close>

text \<open>
  C1 asks for a cursor that never decreases and for no block at or below it to be scanned
  again. The code writes to the cursor at line 651 the \<open>toBlock\<close> it computed at line
  560, before its \<open>await\<close>s, and the timer does not wait for a call to end. From cursor
  100: the first call reads height 110 and asks for (101, 110); the second reads height
  140, asks for (101, 140) and sets the cursor to 140; then the first call's answer comes
  and it sets the cursor back to 110; the third call asks for (111, 140), blocks already
  scanned.
\<close>

theorem overlapping_calls_move_cursor_back:
  "lastProcessedBlock (shared (run cfg0 world_rising (take 5 overlap_schedule) (idle s100))) = 140 \<and>
   lastProcessedBlock (shared (run cfg0 world_rising (take 6 overlap_schedule) (idle s100))) = 110 \<and>
   queries (history (shared (run cfg0 world_rising overlap_schedule (idle s100)))) =
     [(101, 140), (101, 110), (111, 140)]"
  by (simp add: overlap_schedule_def run_def occur_def idle_def world_rising_def world0_def s100_def
      initial_def maxBlockRange_def Let_def)

section \<open>Deduplication when calls overlap\<close>

text \<open>
  C2 asks that of two events with the same key only the first be alerted. The membership
  check (line 592) and the insertion (line 636) of one call are separated by the
  \<open>await\<close>s of lines 600, 611 and 633, and a call started meanwhile reads the same range
  from the cursor that has not moved. On the schedule below both calls find the fill of
  50,000 USDC absent from the alerted set, both post the alert, and the set ends with the
  one key: two alerts for the same fill on the same day, with nothing evicted.
\<close>

theorem overlapping_calls_alert_twice:
  "map embed_wallet (posts (history (shared (run cfg0 world_fill race_schedule (idle s100))))) =
     [maker0, maker0] \<and>
   map embed_amount (posts (history (shared (run cfg0 world_fill race_schedule (idle s100))))) =
     [50000, 50000] \<and>
   alertedTrades (shared (run cfg0 world_fill race_schedule (idle s100))) =
     [alertKeyOf args_50000 1699920005000] \<and>
   calls (run cfg0 world_fill race_schedule (idle s100)) = []"
  by (simp add: race_schedule_def replicate_14 run_def occur_def idle_def world_fill_def world0_def
      s100_def initial_def maxBlockRange_def Let_def enterCheckWalletAge_def cfg0_def market0_def
      tradeAmountOf_def args_50000_def age_info_def DAY_MS_def alertEmbed_def
      markAlerted_eq set_add_def MAX_STORED_ALERTS_def)

section \<open>The range of the log query\<close>

text \<open>
  C4. When the height is above the cursor, the tick hands exactly one range to the log
  query: \<open>(lastProcessed + 1, toBlock)\<close> with
  \<open>toBlock = min currentHeight (lastProcessed + 50)\<close>, so
  \<open>toBlock - fromBlock \<le> 50\<close>.
\<close>

theorem chunked_range:
  assumes "getBlockNumber w (history s) = Inr currentHeight"
    and "lastProcessedBlock s < currentHeight"
  shows "\<exists>toBlock. toBlock = min currentHeight (lastProcessedBlock s + maxBlockRange) \<and>
           new_queries s (snd (processBlockchainEvents cfg w s)) = [(lastProcessedBlock s + 1, toBlock)] \<and>
           toBlock - (lastProcessedBlock s + 1) \<le> maxBlockRange \<and> maxBlockRange = 50"
  using assms by (simp add: new_queries_def tick_queries tick_range_def maxBlockRange_def)

theorem chunked_range_witness:
  "getBlockNumber world0 (history s100) = Inr 1000000 \<and> lastProcessedBlock s100 < 1000000 \<and>
   new_queries s100 (snd (processBlockchainEvents cfg0 world0 s100)) = [(101, 150)]"
proof -
  have h: "getBlockNumber world0 (history s100) = Inr 1000000"
    by (simp add: world0_def)
  have l: "lastProcessedBlock s100 < 1000000"
    by (simp add: s100_def initial_def)
  show ?thesis
    using h l chunked_range [OF h l, of cfg0]
    by (simp add: s100_def initial_def maxBlockRange_def)
qed

section \<open>The amount filter\<close>

text \<open>
  C9. An event whose trade amount is below \<open>MIN_BET_AMOUNT\<close> leaves the loop body
  at once: the state is returned as it was, so no call was made (no wallet-age query, no
  market lookup, no post to the webhook) and no key was added to the alerted set.
\<close>

theorem below_minimum_discarded:
  assumes "tradeAmountOf args < MIN_BET_AMOUNT cfg"
  shows "processEvent cfg w (EventLog args) s = (BelowMinimum, s)"
  using assms by (simp add: processEvent_def)

theorem below_minimum_discarded_witness:
  "tradeAmountOf args_9999 = 9999 \<and> MIN_BET_AMOUNT cfg0 = 10000 \<and>
   tradeAmountOf args_9999 < MIN_BET_AMOUNT cfg0 \<and>
   processEvent cfg0 world0 (EventLog args_9999) initial = (BelowMinimum, initial)"
proof -
  have lt: "tradeAmountOf args_9999 < MIN_BET_AMOUNT cfg0"
    by (simp add: tradeAmountOf_def args_9999_def cfg0_def)
  show ?thesis
    using lt below_minimum_discarded [OF lt, of world0 initial]
    by (simp add: tradeAmountOf_def args_9999_def cfg0_def)
qed

section \<open>A busy day\<close>

lemma sleeps_append [simp]: "sleeps (h @ h') = sleeps h + sleeps h'"
  by (induction h rule: sleeps.induct) simp_all

lemma tradeAmountOf_args_n: "tradeAmountOf (args_n i) = of_nat (50000 + 100 * i)"
  by (simp add: tradeAmountOf_def args_n_def)

lemma key_amount_key_n: "key_amount (key_n i) = 50000 + 100 * int i"
proof -
  have "tradeAmountOf (args_n i) / 100 = (of_nat (500 + i) :: rat)"
    by (simp add: tradeAmountOf_args_n)
  then have "\<lfloor>tradeAmountOf (args_n i) / 100\<rfloor> = 500 + int i"
    by (simp only: floor_of_nat)
  then show ?thesis
    by (simp add: key_n_def alertKeyOf_def)
qed

lemma inj_key_n: "inj key_n"
proof (rule injI)
  fix i j
  assume "key_n i = key_n j"
  then have "key_amount (key_n i) = key_amount (key_n j)"
    by simp
  then show "i = j"
    by (simp add: key_amount_key_n)
qed

lemma distinct_keys: "distinct (map key_n [i..<j])"
  by (simp add: distinct_map inj_on_subset [OF inj_key_n])

lemma same_day:
  assumes "0 \<le> j" and "j \<le> 5002"
  shows "(1699920005000 + 2000 * j) div DAY_MS = 19675"
  using assms unfolding DAY_MS_def by simp

lemma age_zero:
  assumes "0 \<le> j" and "j \<le> 5002"
  shows "(5000 + 2000 * j) div DAY_MS = 0"
  using assms unfolding DAY_MS_def by simp

lemma key_busy:
  assumes "j \<le> 5002"
  shows "alertKeyOf (args_n i) (1699920005000 + 2000 * int j) = key_n i"
  using assms same_day [of "int j"] same_day [of 0]
  by (simp add: key_n_def alertKeyOf_def)

lemma findFirstTxBlock_5:
  "findFirstTxBlock w a cur win 5 f h = findFirstTxBlock w a cur win (Suc (Suc (Suc (Suc (Suc 0))))) f h"
  by (simp add: eval_nat_numeral)

lemma busy_checkWalletAge:
  assumes "sleeps (history s) \<le> 5002"
    and "walletFirstSeen s maker0 = None \<or> walletFirstSeen s maker0 = Some first_seen0"
  shows "\<exists>s'. checkWalletAge cfg0 world_busy maker0 s = (age_info cfg0 0, s') \<and>
           sleeps (history s') = sleeps (history s) \<and>
           walletFirstSeen s' maker0 = Some first_seen0 \<and>
           alertedTrades s' = alertedTrades s"
  using assms(2)
proof
  assume "walletFirstSeen s maker0 = None"
  then show ?thesis
    using assms(1) age_zero [of "int (sleeps (history s))"]
    by (simp add: checkWalletAge_def world_busy_def world0_def Let_def findFirstTxBlock_5 first_seen0_def)
next
  assume "walletFirstSeen s maker0 = Some first_seen0"
  then show ?thesis
    using assms(1) age_zero [of "int (sleeps (history s))"]
    by (simp add: checkWalletAge_def world_busy_def world0_def Let_def first_seen0_def)
qed

lemma busy_step:
  assumes bound: "sleeps (history s) \<le> 5001"
    and cache: "walletFirstSeen s maker0 = None \<or> walletFirstSeen s maker0 = Some first_seen0"
    and new: "key_n i \<notin> set (alertedTrades s)"
  shows "\<exists>s'. processEvent cfg0 world_busy (EventLog (args_n i)) s = (AlertSent Delivered, s') \<and>
           sleeps (history s') = Suc (sleeps (history s)) \<and>
           walletFirstSeen s' maker0 = Some first_seen0 \<and>
           alertedTrades s' = markAlerted (alertedTrades s) (key_n i)"
proof -
  let ?s1 = "s\<lparr>history := history s @ [DateNow]\<rparr>"
  have key: "alertKeyOf (args_n i) (dateNow world_busy (history s)) = key_n i"
    using bound key_busy [of "sleeps (history s)" i] by (simp add: world_busy_def world0_def)
  have "sleeps (history ?s1) \<le> 5002" and "walletFirstSeen ?s1 maker0 = None \<or> walletFirstSeen ?s1 maker0 = Some first_seen0"
    using bound cache by simp_all
  then obtain s2 where s2: "checkWalletAge cfg0 world_busy maker0 ?s1 = (age_info cfg0 0, s2)"
    and s2_sleeps: "sleeps (history s2) = sleeps (history ?s1)"
    and s2_cache: "walletFirstSeen s2 maker0 = Some first_seen0"
    and s2_alerted: "alertedTrades s2 = alertedTrades ?s1"
    using busy_checkWalletAge by blast
  have amount: "\<not> tradeAmountOf (args_n i) < MIN_BET_AMOUNT cfg0"
    by (simp add: tradeAmountOf_args_n cfg0_def)
  have maker: "maker (args_n i) = maker0"
    by (simp add: args_n_def)
  show ?thesis
    using amount key new s2 s2_sleeps s2_cache s2_alerted
    by (simp add: processEvent_def Let_def maker age_info_def getMarketByConditionId_def
        sendDiscordAlert_def world_busy_def world0_def market0_def cfg0_def)
qed

lemma fst_processEvents_Cons:
  "fst (processEvents cfg w (ev # evs) s) =
     fst (processEvent cfg w ev s) # fst (processEvents cfg w evs (snd (processEvent cfg w ev s)))"
  by (simp split: prod.splits)

lemma processEvents_append:
  "processEvents cfg w (evs @ evs') s =
     (fst (processEvents cfg w evs s) @ fst (processEvents cfg w evs' (snd (processEvents cfg w evs s))),
      snd (processEvents cfg w evs' (snd (processEvents cfg w evs s))))"
  by (induction evs arbitrary: s) (simp_all split: prod.splits)

lemma busy_run:
  assumes "sleeps (history s) + length ns \<le> 5002"
    and "walletFirstSeen s maker0 = None \<or> walletFirstSeen s maker0 = Some first_seen0"
    and "distinct (alertedTrades s @ map key_n ns)"
  shows "fst (processEvents cfg0 world_busy (map (\<lambda>i. EventLog (args_n i)) ns) s) =
           replicate (length ns) (AlertSent Delivered) \<and>
         sleeps (history (snd (processEvents cfg0 world_busy (map (\<lambda>i. EventLog (args_n i)) ns) s))) =
           sleeps (history s) + length ns \<and>
         alertedTrades (snd (processEvents cfg0 world_busy (map (\<lambda>i. EventLog (args_n i)) ns) s)) =
           foldl markAlerted (alertedTrades s) (map key_n ns) \<and>
         (walletFirstSeen (snd (processEvents cfg0 world_busy (map (\<lambda>i. EventLog (args_n i)) ns) s)) maker0 = None \<or>
          walletFirstSeen (snd (processEvents cfg0 world_busy (map (\<lambda>i. EventLog (args_n i)) ns) s)) maker0 =
            Some first_seen0)"
  using assms
proof (induction ns arbitrary: s)
  case Nil
  then show ?case by simp
next
  case (Cons i ns)
  have "sleeps (history s) \<le> 5001" and "key_n i \<notin> set (alertedTrades s)"
    using Cons.prems by auto
  with Cons.prems(2) obtain s' where
    step: "processEvent cfg0 world_busy (EventLog (args_n i)) s = (AlertSent Delivered, s')"
    and sl: "sleeps (history s') = Suc (sleeps (history s))"
    and ca: "walletFirstSeen s' maker0 = Some first_seen0"
    and al: "alertedTrades s' = markAlerted (alertedTrades s) (key_n i)"
    using busy_step by blast
  have sub: "set (alertedTrades s') \<subseteq> insert (key_n i) (set (alertedTrades s))"
    unfolding al by (rule set_markAlerted_subset)
  have "insert (key_n i) (set (alertedTrades s)) \<inter> set (map key_n ns) = {}"
    using Cons.prems(3) by auto
  with sub have disj: "set (alertedTrades s') \<inter> set (map key_n ns) = {}"
    by blast
  have "distinct (alertedTrades s')"
    unfolding al using Cons.prems(3) by (simp add: distinct_markAlerted)
  with disj have di: "distinct (alertedTrades s' @ map key_n ns)"
    using Cons.prems(3) by simp
  have "sleeps (history s') + length ns \<le> 5002"
    using sl Cons.prems(1) by simp
  from Cons.IH [OF this _ di] ca
  show ?case
    by (simp add: fst_processEvents_Cons snd_processEvents_Cons step sl al
        del: processEvents.simps(2))
qed

lemma markAlerted_last:
  assumes "k \<notin> set a"
  shows "\<exists>pre. markAlerted a k = pre @ [k]"
proof (cases a)
  case Nil
  then have "markAlerted a k = [] @ [k]"
    by (simp add: markAlerted_eq set_add_def MAX_STORED_ALERTS_def)
  then show ?thesis by blast
next
  case (Cons x xs)
  with assms have "markAlerted a k = a @ [k] \<or> markAlerted a k = xs @ [k]"
    by (simp add: markAlerted_eq set_add_def Let_def)
  then show ?thesis by blast
qed

section \<open>Bound and eviction order of the alerted set\<close>

text \<open>
  C3. One \<open>markAlerted\<close> keeps the size within \<open>MAX_STORED_ALERTS\<close>, so the set
  built from the empty one by any sequence of keys is within it, and so is the alerted
  set after anything the timer and the awaited operations do from the initial state, calls
  that overlap included. Eviction is first in, first out: after
  \<open>MAX_STORED_ALERTS + 1\<close> insertions of distinct keys into the empty set, the set
  holds exactly the keys but the first, in their order.
\<close>

theorem alerted_set_bounded_fifo:
  "(length a \<le> MAX_STORED_ALERTS \<longrightarrow> length (markAlerted a k) \<le> MAX_STORED_ALERTS) \<and>
   length (foldl markAlerted [] ks) \<le> MAX_STORED_ALERTS \<and>
   length (alertedTrades (shared (run cfg w ocs (idle initial)))) \<le> MAX_STORED_ALERTS \<and>
   (distinct ks \<and> length ks = MAX_STORED_ALERTS + 1 \<longrightarrow>
      foldl markAlerted [] ks = tl ks \<and>
      hd ks \<notin> set (foldl markAlerted [] ks) \<and>
      set (foldl markAlerted [] ks) = set ks - {hd ks})"
proof -
  have one: "length a \<le> MAX_STORED_ALERTS \<longrightarrow> length (markAlerted a k) \<le> MAX_STORED_ALERTS"
    by (simp add: length_markAlerted)
  have many: "length (foldl markAlerted [] ks) \<le> MAX_STORED_ALERTS"
    by (simp add: length_foldl_markAlerted)
  have run: "length (alertedTrades (shared (run cfg w ocs (idle initial)))) \<le> MAX_STORED_ALERTS"
    by (rule run_bounded) (simp add: idle_def initial_def)
  have fifo: "foldl markAlerted [] ks = tl ks \<and> hd ks \<notin> set (foldl markAlerted [] ks) \<and>
      set (foldl markAlerted [] ks) = set ks - {hd ks}"
    if d: "distinct ks" and l: "length ks = MAX_STORED_ALERTS + 1"
  proof -
    from l obtain x xs where ks: "ks = x # xs"
      by (cases ks) auto
    have "foldl markAlerted [] ks = drop (length ([] @ ks) - MAX_STORED_ALERTS) ([] @ ks)"
      using d by (intro foldl_markAlerted_fifo) simp_all
    with l ks have "foldl markAlerted [] ks = xs"
      by simp
    with d ks show ?thesis
      by auto
  qed
  from one many run fifo show ?thesis by blast
qed

theorem alerted_set_bounded_fifo_witness:
  "distinct (map key_n [0..<5001]) \<and> length (map key_n [0..<5001]) = MAX_STORED_ALERTS + 1 \<and>
   hd (map key_n [0..<5001]) = key_n 0 \<and>
   foldl markAlerted [] (map key_n [0..<5001]) = tl (map key_n [0..<5001]) \<and>
   key_n 0 \<notin> set (foldl markAlerted [] (map key_n [0..<5001])) \<and>
   length (foldl markAlerted [] (map key_n [0..<5001])) = 5000 \<and>
   length (markAlerted [] (key_n 0)) = 1"
proof -
  have d: "distinct (map key_n [0..<5001])"
    by (rule distinct_keys)
  have l: "length (map key_n [0..<5001]) = MAX_STORED_ALERTS + 1"
    by (simp add: MAX_STORED_ALERTS_def)
  have "[0..<5001] = 0 # [Suc 0..<5001]"
    by (rule upt_conv_Cons) simp
  then have h: "hd (map key_n [0..<5001]) = key_n 0"
    by (simp only: list.map list.sel)
  have one: "length (markAlerted [] (key_n 0)) = 1"
    by (simp add: markAlerted_eq set_add_def MAX_STORED_ALERTS_def)
  have fifo: "foldl markAlerted [] (map key_n [0..<5001]) = tl (map key_n [0..<5001]) \<and>
      hd (map key_n [0..<5001]) \<notin> set (foldl markAlerted [] (map key_n [0..<5001]))"
    using d l alerted_set_bounded_fifo [where ks = "map key_n [0..<5001]" and a = "[]"
        and k = "key_n 0" and cfg = cfg0 and w = world0 and ocs = "[]"]
    by blast
  from fifo have f1: "foldl markAlerted [] (map key_n [0..<5001]) = tl (map key_n [0..<5001])"
    by blast
  from fifo have f2: "key_n 0 \<notin> set (foldl markAlerted [] (map key_n [0..<5001]))"
    unfolding h by blast
  have f3: "length (foldl markAlerted [] (map key_n [0..<5001])) = 5000"
    unfolding f1 by (simp only: length_tl length_map length_upt)
  from d l h f1 f2 f3 one show ?thesis
    by blast
qed

section \<open>Deduplication by a call that is not overlapped\<close>

text \<open>
  What the membership check does for a call that is not overlapped. The first event was
  alerted, which put its key into the alerted set. As long as fewer than
  \<open>MAX_STORED_ALERTS\<close> keys have been marked alerted since, an event with the same key
  is discarded without an alert: by the membership check, or before it by the amount filter.
\<close>

lemma dedup_while_key_stays:
  assumes "fst (processEvent cfg w (EventLog args1) s) = AlertSent d"
    and "alertedTrades s2 = foldl markAlerted (alertedTrades (snd (processEvent cfg w (EventLog args1) s))) ks"
    and "length ks < MAX_STORED_ALERTS"
    and "alertKeyOf args2 (dateNow w (history s2)) = alertKeyOf args1 (dateNow w (history s))"
  shows "processEvent cfg w (EventLog args2) s2 =
           (if tradeAmountOf args2 < MIN_BET_AMOUNT cfg then (BelowMinimum, s2)
            else (AlreadyAlerted, s2\<lparr>history := history s2 @ [DateNow]\<rparr>))"
proof -
  let ?k = "alertKeyOf args1 (dateNow w (history s))"
  let ?s1 = "snd (processEvent cfg w (EventLog args1) s)"
  have "alertedTrades ?s1 = markAlerted (alertedTrades s) ?k" and "?k \<notin> set (alertedTrades s)"
    using assms(1) by (rule processEvent_sent)+
  then obtain pre where "alertedTrades ?s1 = pre @ ?k # []"
    using markAlerted_last by metis
  moreover have "length ([] :: alert_key list) + length ks < MAX_STORED_ALERTS"
    using assms(3) by simp
  ultimately have "?k \<in> set (foldl markAlerted (alertedTrades ?s1) ks)"
    by (rule foldl_markAlerted_keeps)
  then have mem: "alertKeyOf args2 (dateNow w (history s2)) \<in> set (alertedTrades s2)"
    using assms(2,4) by simp
  show ?thesis
  proof (cases "tradeAmountOf args2 < MIN_BET_AMOUNT cfg")
    case True
    then show ?thesis
      by (simp add: processEvent_def)
  next
    case False
    with mem show ?thesis
      by (simp add: processEvent_dedup)
  qed
qed

lemma world0_alert:
  "fst (processEvent cfg0 world0 (EventLog args_50000) initial) = AlertSent Delivered"
  by (simp add: processEvent_def Let_def checkWalletAge_def getMarketByConditionId_def
      sendDiscordAlert_def age_info_def world0_def market0_def cfg0_def initial_def
      args_50000_def tradeAmountOf_def findFirstTxBlock_5 DAY_MS_def)

text \<open>
  The cap evicts the oldest key, so a key does not stay for the day. On the busy day the
  fill of 50,000 USDC is alerted first; 5000 further fills with keys of their own are
  alerted after it, which takes 10,002 seconds of pacing and evicts its key; the same fill
  comes again on the same day and is alerted a second time.
\<close>

lemma realert_after_eviction:
  "hd busy_events = EventLog (args_n 0) \<and>
   fst (processEvents cfg0 world_busy busy_events initial) = replicate 5001 (AlertSent Delivered) \<and>
   alertKeyOf (args_n 0) (dateNow world_busy (history (snd (processEvents cfg0 world_busy busy_events initial)))) =
     alertKeyOf (args_n 0) (dateNow world_busy (history initial)) \<and>
   fst (processEvent cfg0 world_busy (EventLog (args_n 0)) (snd (processEvents cfg0 world_busy busy_events initial))) =
     AlertSent Delivered"
proof -
  let ?s1 = "snd (processEvents cfg0 world_busy busy_events initial)"
  have d: "distinct (map key_n [0..<5001])"
    by (rule distinct_keys)
  have run: "fst (processEvents cfg0 world_busy busy_events initial) = replicate 5001 (AlertSent Delivered) \<and>
      sleeps (history ?s1) = 5001 \<and>
      alertedTrades ?s1 = foldl markAlerted [] (map key_n [0..<5001]) \<and>
      (walletFirstSeen ?s1 maker0 = None \<or> walletFirstSeen ?s1 maker0 = Some first_seen0)"
    using busy_run [of initial "[0..<5001]"] d
    by (simp add: busy_events_def initial_def)
  have "foldl markAlerted [] (map key_n [0..<5001]) =
      drop (length ([] @ map key_n [0..<5001]) - MAX_STORED_ALERTS) ([] @ map key_n [0..<5001])"
    using d by (intro foldl_markAlerted_fifo) simp_all
  then have evicted: "foldl markAlerted [] (map key_n [0..<5001]) = map key_n [1..<5001]"
    by (simp add: MAX_STORED_ALERTS_def drop_map)
  have "key_n 0 \<notin> set (map key_n [1..<5001])"
    using inj_key_n by (auto simp: inj_eq)
  with run evicted have new: "key_n 0 \<notin> set (alertedTrades ?s1)"
    by simp
  have bound: "sleeps (history ?s1) \<le> 5001"
    using run by simp
  from run have cache: "walletFirstSeen ?s1 maker0 = None \<or> walletFirstSeen ?s1 maker0 = Some first_seen0"
    by blast
  from busy_step [OF bound cache new]
  have again: "fst (processEvent cfg0 world_busy (EventLog (args_n 0)) ?s1) = AlertSent Delivered"
    by auto
  have same: "alertKeyOf (args_n 0) (dateNow world_busy (history ?s1)) =
      alertKeyOf (args_n 0) (dateNow world_busy (history initial))"
    using run key_busy [of 5001 0] key_busy [of 0 0]
    by (simp add: world_busy_def world0_def initial_def)
  have "[0..<5001] = 0 # [Suc 0..<5001]"
    by (rule upt_conv_Cons) simp
  then have "hd busy_events = EventLog (args_n 0)"
    unfolding busy_events_def by (simp only: list.map list.sel)
  with run again same show ?thesis by blast
qed

section \<open>The age of a cached wallet\<close>

lemma div_shift:
  fixes x d D :: int
  assumes "0 < D"
  shows "(x + d) div D - x div D = d div D \<or> (x + d) div D - x div D = d div D + 1"
proof -
  have split: "(x + d) div D = x div D + d div D + (x mod D + d mod D) div D"
    by (rule div_add1_eq)
  have "0 \<le> x mod D + d mod D" and "x mod D + d mod D < 2 * D"
    using assms pos_mod_sign [of D x] pos_mod_sign [of D d] pos_mod_bound [of D x] pos_mod_bound [of D d]
    by linarith+
  then have "(x mod D + d mod D) div D = 0 \<or> (x mod D + d mod D) div D = 1"
  proof (cases "x mod D + d mod D < D")
    case True
    with \<open>0 \<le> x mod D + d mod D\<close> show ?thesis
      by simp
  next
    case False
    then have "(x mod D + d mod D - D) div D = 0"
      using \<open>x mod D + d mod D < 2 * D\<close> by simp
    moreover have "(x mod D + d mod D) div D = (x mod D + d mod D - D) div D + 1"
      using assms by (metis diff_add_cancel div_add_self2 less_irrefl)
    ultimately show ?thesis by simp
  qed
  with split show ?thesis by auto
qed

lemma div_shift_exact:
  fixes x d D :: int
  assumes "D dvd d"
  shows "(x + d) div D - x div D = d div D"
  using assms by (auto simp: div_plus_div_distrib_dvd_right)

lemma checkWalletAge_cached:
  assumes "walletFirstSeen s a = Some firstSeen"
  shows "checkWalletAge cfg w a s =
           (age_info cfg ((dateNow w (history s) - firstSeen) div DAY_MS),
            s\<lparr>history := history s @ [DateNow]\<rparr>)"
  using assms by (simp add: checkWalletAge_def Let_def)

text \<open>
  C7 (as amended). For an address with a cached first-seen time, \<open>checkWalletAge\<close>
  computes \<open>ageInDays\<close> as the floor of \<open>(now - firstSeenTime)\<close> in days, returns
  \<open>isNew = (ageInDays \<le> NEW_ACCOUNT_DAYS)\<close> and changes nothing but the call
  history. Two calls in a row whose clock readings are \<open>delta\<close> apart give ages that
  differ by \<open>floor (delta / day)\<close> or by one more; by exactly \<open>floor (delta / day)\<close>
  when \<open>delta\<close> is a whole number of days.
\<close>

theorem cached_age_recomputed:
  fixes s :: state and cfg :: config and w :: world and a :: string
  assumes cached: "walletFirstSeen s a = Some firstSeen"
  defines "r1 \<equiv> checkWalletAge cfg w a s"
  defines "r2 \<equiv> checkWalletAge cfg w a (snd r1)"
  defines "delta \<equiv> dateNow w (history (snd r1)) - dateNow w (history s)"
  shows "ageInDays (fst r1) = (dateNow w (history s) - firstSeen) div DAY_MS \<and>
         isNew (fst r1) = (ageInDays (fst r1) \<le> NEW_ACCOUNT_DAYS cfg) \<and>
         snd r1 = s\<lparr>history := history s @ [DateNow]\<rparr> \<and>
         (ageInDays (fst r2) - ageInDays (fst r1) = delta div DAY_MS \<or>
          ageInDays (fst r2) - ageInDays (fst r1) = delta div DAY_MS + 1) \<and>
         (DAY_MS dvd delta \<longrightarrow> ageInDays (fst r2) - ageInDays (fst r1) = delta div DAY_MS)"
proof -
  let ?now1 = "dateNow w (history s)"
  let ?now2 = "dateNow w (history s @ [DateNow])"
  have r1: "r1 = (age_info cfg ((?now1 - firstSeen) div DAY_MS), s\<lparr>history := history s @ [DateNow]\<rparr>)"
    unfolding r1_def using cached by (rule checkWalletAge_cached)
  have "walletFirstSeen (snd r1) a = Some firstSeen"
    by (simp add: r1 cached)
  then have "r2 = (age_info cfg ((dateNow w (history (snd r1)) - firstSeen) div DAY_MS),
      (snd r1)\<lparr>history := history (snd r1) @ [DateNow]\<rparr>)"
    unfolding r2_def by (rule checkWalletAge_cached)
  then have age2: "ageInDays (fst r2) = (?now2 - firstSeen) div DAY_MS"
    by (simp add: r1 age_info_def)
  have age1: "ageInDays (fst r1) = (?now1 - firstSeen) div DAY_MS"
    by (simp add: r1 age_info_def)
  have new1: "isNew (fst r1) = (ageInDays (fst r1) \<le> NEW_ACCOUNT_DAYS cfg)"
    by (simp add: r1 age_info_def)
  have delta: "delta = ?now2 - ?now1"
    by (simp add: delta_def r1)
  have shift: "?now2 - firstSeen = (?now1 - firstSeen) + delta"
    by (simp add: delta)
  have pos: "0 < DAY_MS"
    by (simp add: DAY_MS_def)
  have near: "ageInDays (fst r2) - ageInDays (fst r1) = delta div DAY_MS \<or>
      ageInDays (fst r2) - ageInDays (fst r1) = delta div DAY_MS + 1"
    unfolding age1 age2 shift using pos by (rule div_shift)
  have exact: "DAY_MS dvd delta \<longrightarrow> ageInDays (fst r2) - ageInDays (fst r1) = delta div DAY_MS"
    unfolding age1 age2 shift by (simp add: div_shift_exact)
  from age1 new1 r1 near exact show ?thesis by simp
qed

theorem cached_age_recomputed_witness:
  "walletFirstSeen s_cached maker0 = Some first_seen0 \<and>
   ageInDays (fst (checkWalletAge cfg0 world0 maker0 s_cached)) = 0 \<and>
   isNew (fst (checkWalletAge cfg0 world0 maker0 s_cached)) \<and>
   snd (checkWalletAge cfg0 world0 maker0 s_cached) = s_cached\<lparr>history := [DateNow]\<rparr> \<and>
   ageInDays (fst (checkWalletAge cfg0 world0 maker0 (snd (checkWalletAge cfg0 world0 maker0 s_cached)))) = 0"
proof -
  have c: "walletFirstSeen s_cached maker0 = Some first_seen0"
    by (simp add: s_cached_def)
  from c cached_age_recomputed [OF c, of cfg0 world0]
  show ?thesis
    by (simp add: checkWalletAge_def Let_def age_info_def s_cached_def initial_def world0_def
        cfg0_def first_seen0_def DAY_MS_def)
qed

text \<open>
  The claim as stated asks for a difference of exactly \<open>floor (delta / day)\<close>. A wallet
  first seen at midnight is asked for at 23:59:59.999 (age 0) and one millisecond later
  (age 1): the ages differ by 1, and \<open>floor (delta / day) = 0\<close>.
\<close>

theorem age_difference_counterexample:
  "walletFirstSeen s_cached maker0 = Some first_seen0 \<and>
   ageInDays (fst (checkWalletAge cfg0 world_midnight maker0 s_cached)) = 0 \<and>
   ageInDays (fst (checkWalletAge cfg0 world_midnight maker0
     (snd (checkWalletAge cfg0 world_midnight maker0 s_cached)))) = 1 \<and>
   dateNow world_midnight (history (snd (checkWalletAge cfg0 world_midnight maker0 s_cached))) -
     dateNow world_midnight (history s_cached) = 1 \<and>
   (1 :: int) div DAY_MS = 0"
  by (simp add: checkWalletAge_def Let_def age_info_def s_cached_def initial_def world_midnight_def
      world0_def first_seen0_def DAY_MS_def)

section \<open>What the notifier answers\<close>

lemma findFirstTxBlock_notifier:
  "findFirstTxBlock (w\<lparr>postWebhook := answer\<rparr>) a cur win n f h = findFirstTxBlock w a cur win n f h"
  by (induction n arbitrary: f h) (simp_all add: Let_def split: sum.splits)

lemma checkWalletAge_notifier:
  "checkWalletAge cfg (w\<lparr>postWebhook := answer\<rparr>) a s = checkWalletAge cfg w a s"
  by (simp add: checkWalletAge_def findFirstTxBlock_notifier Let_def
      cong: option.case_cong sum.case_cong if_cong prod.case_cong)

lemma getMarket_notifier:
  "getMarketByConditionId (w\<lparr>postWebhook := answer\<rparr>) c s = getMarketByConditionId w c s"
  by (simp add: getMarketByConditionId_def)

lemma snd_case_sum: "snd (case x of Inl e \<Rightarrow> (a, s) | Inr u \<Rightarrow> (b, s)) = s"
  by (cases x) simp_all

lemma sendDiscordAlert_notifier:
  "snd (sendDiscordAlert cfg (w\<lparr>postWebhook := answer\<rparr>) td walletInfo mkt s) =
   snd (sendDiscordAlert cfg w td walletInfo mkt s)"
  by (simp add: sendDiscordAlert_def Let_def snd_case_sum)

lemma processEvent_notifier:
  "snd (processEvent cfg (w\<lparr>postWebhook := answer\<rparr>) ev s) = snd (processEvent cfg w ev s)"
proof (cases ev)
  case UndecodedLog
  then show ?thesis
    by (simp add: processEvent_def)
next
  case (EventLog args)
  let ?w = "w\<lparr>postWebhook := answer\<rparr>"
  let ?s1 = "s\<lparr>history := history s @ [DateNow]\<rparr>"
  let ?td = "\<lparr>wallet = maker args, amount = tradeAmountOf args,
              outcome = getOutcomeFromAssetId (makerAssetId args), tradeHash = orderHash args\<rparr>"
  obtain walletInfo s2 where age: "checkWalletAge cfg w (maker args) ?s1 = (walletInfo, s2)"
    by (cases "checkWalletAge cfg w (maker args) ?s1")
  obtain mk s3 where mk: "getMarketByConditionId w (take 66 (toString (makerAssetId args))) s2 = (mk, s3)"
    by (cases "getMarketByConditionId w (take 66 (toString (makerAssetId args))) s2")
  show ?thesis
  proof (cases mk)
    case None
    with EventLog age mk show ?thesis
      by (simp add: processEvent_def checkWalletAge_notifier getMarket_notifier Let_def)
  next
    case (Some mkt)
    obtain sent s4 where a: "sendDiscordAlert cfg w ?td walletInfo mkt s3 = (sent, s4)"
      by (cases "sendDiscordAlert cfg w ?td walletInfo mkt s3")
    obtain sent' s4' where b: "sendDiscordAlert cfg ?w ?td walletInfo mkt s3 = (sent', s4')"
      by (cases "sendDiscordAlert cfg ?w ?td walletInfo mkt s3")
    from a b sendDiscordAlert_notifier [where cfg = cfg and w = w and answer = answer
        and td = ?td and walletInfo = walletInfo and mkt = mkt and s = s3] have "s4' = s4"
      by simp
    with EventLog age mk Some a b show ?thesis
      by (simp add: processEvent_def checkWalletAge_notifier getMarket_notifier Let_def)
  qed
qed

lemma enterCheckWalletAge_notifier:
  "enterCheckWalletAge cfg (w\<lparr>postWebhook := answer\<rparr>) fr s = enterCheckWalletAge cfg w fr s"
  by (simp add: enterCheckWalletAge_def Let_def cong: option.case_cong)

lemma forEvents_notifier:
  "forEvents cfg (w\<lparr>postWebhook := answer\<rparr>) toBlock evs s = forEvents cfg w toBlock evs s"
proof (induction evs arbitrary: s)
  case Nil
  show ?case by simp
next
  case (Cons ev evs)
  then show ?case
    by (cases ev) (simp_all add: enterCheckWalletAge_notifier Let_def)
qed

text \<open>Only the \<open>await\<close> of line 536 hears the notifier, and it keeps nothing but the log line.\<close>

lemma resume_notifier:
  "snd (resume cfg (w\<lparr>postWebhook := answer\<rparr>) t s) = snd (resume cfg w t s) \<and>
   map_option forget (fst (resume cfg (w\<lparr>postWebhook := answer\<rparr>) t s)) =
     map_option forget (fst (resume cfg w t s))"
proof (cases t)
  case (AwaitMarket fr walletInfo mk)
  then show ?thesis
    by (cases mk) (simp_all add: forEvents_notifier Let_def)
next
  case (AwaitBalance fr cur win n f)
  then show ?thesis
    by (simp add: Let_def split: sum.split nat.split)
next
  case (AwaitBlock fr f)
  then show ?thesis
    by (simp add: Let_def split: sum.split option.split)
next
  case (AwaitMarkets fr walletInfo)
  then show ?thesis
    by (simp add: Let_def split: sum.split list.split)
qed (simp_all add: forEvents_notifier Let_def split: sum.split)

lemma forget_eq:
  assumes "forget t = forget t'"
  shows "t = t' \<or> (\<exists>fr sent sent'. t = AwaitAlert fr sent \<and> t' = AwaitAlert fr sent')"
  using assms by (cases t; cases t') simp_all

lemma resume_forget:
  assumes "forget t = forget t'"
  shows "snd (resume cfg (w\<lparr>postWebhook := answer\<rparr>) t s) = snd (resume cfg w t' s) \<and>
     map_option forget (fst (resume cfg (w\<lparr>postWebhook := answer\<rparr>) t s)) =
       map_option forget (fst (resume cfg w t' s))"
proof -
  from forget_eq [OF assms] consider "t = t'"
    | fr sent sent' where "t = AwaitAlert fr sent" and "t' = AwaitAlert fr sent'"
    by blast
  then show ?thesis
  proof cases
    case 1
    then show ?thesis
      using resume_notifier [where cfg = cfg and w = w and answer = answer and t = t' and s = s] by simp
  next
    case 2
    then show ?thesis
      by simp
  qed
qed

lemma occur_notifier:
  assumes "shared p = shared p'" and "map forget (calls p) = map forget (calls p')"
  shows "shared (occur cfg (w\<lparr>postWebhook := answer\<rparr>) p oc) = shared (occur cfg w p' oc) \<and>
     map forget (calls (occur cfg (w\<lparr>postWebhook := answer\<rparr>) p oc)) =
       map forget (calls (occur cfg w p' oc))"
proof (cases oc)
  case TimerFires
  with assms show ?thesis
    by (simp add: occur_def)
next
  case (Completes i)
  from assms(2) have len: "length (calls p) = length (calls p')"
    by (rule map_eq_imp_length_eq)
  show ?thesis
  proof (cases "i < length (calls p)")
    case False
    with Completes len assms show ?thesis
      by (simp add: occur_def)
  next
    case True
    let ?w = "w\<lparr>postWebhook := answer\<rparr>"
    from True len assms(2) have "forget (calls p ! i) = forget (calls p' ! i)"
      using nth_map [of i "calls p" forget] nth_map [of i "calls p'" forget] by simp
    from resume_forget [OF this, where cfg = cfg and w = w and answer = answer and s = "shared p"] assms(1)
    have st: "snd (resume cfg ?w (calls p ! i) (shared p)) = snd (resume cfg w (calls p' ! i) (shared p'))"
      and ts: "map_option forget (fst (resume cfg ?w (calls p ! i) (shared p))) =
        map_option forget (fst (resume cfg w (calls p' ! i) (shared p')))"
      by simp_all
    obtain a s1 where r: "resume cfg ?w (calls p ! i) (shared p) = (a, s1)"
      by (cases "resume cfg ?w (calls p ! i) (shared p)")
    obtain b s2 where r': "resume cfg w (calls p' ! i) (shared p') = (b, s2)"
      by (cases "resume cfg w (calls p' ! i) (shared p')")
    from st ts r r' have eq: "s1 = s2" "map_option forget a = map_option forget b"
      by simp_all
    have tk: "map forget (take i (calls p)) = map forget (take i (calls p'))"
      using arg_cong [OF assms(2), where f = "take i"] by (simp add: take_map)
    have dr: "map forget (drop (Suc i) (calls p)) = map forget (drop (Suc i) (calls p'))"
      using arg_cong [OF assms(2), where f = "drop (Suc i)"] by (simp add: drop_map)
    show ?thesis
    proof (cases a)
      case None
      with eq have "b = None"
        by simp
      with None Completes True len r r' eq tk dr show ?thesis
        by (simp add: occur_def)
    next
      case (Some t)
      with eq obtain t' where b: "b = Some t'" and f: "forget t = forget t'"
        by (cases b) simp_all
      have "map forget ((calls p)[i := t]) = map forget ((calls p')[i := t'])"
        using assms(2) f by (simp add: map_update)
      with Some b Completes True len r r' eq show ?thesis
        by (simp add: occur_def)
    qed
  qed
qed

lemma run_notifier:
  assumes "shared p = shared p'" and "map forget (calls p) = map forget (calls p')"
  shows "shared (run cfg (w\<lparr>postWebhook := answer\<rparr>) ocs p) = shared (run cfg w ocs p') \<and>
     map forget (calls (run cfg (w\<lparr>postWebhook := answer\<rparr>) ocs p)) =
       map forget (calls (run cfg w ocs p'))"
  using assms
proof (induction ocs arbitrary: p p')
  case Nil
  then show ?case
    by (simp add: run_def)
next
  case (Cons oc ocs)
  from occur_notifier [OF Cons.prems, where cfg = cfg and w = w and answer = answer and oc = oc]
  have "shared (occur cfg (w\<lparr>postWebhook := answer\<rparr>) p oc) = shared (occur cfg w p' oc)"
    and "map forget (calls (occur cfg (w\<lparr>postWebhook := answer\<rparr>) p oc)) =
      map forget (calls (occur cfg w p' oc))"
    by simp_all
  from Cons.IH [OF this] show ?case
    by (simp add: run_def)
qed

lemma markAlerted_in:
  assumes "length a \<le> MAX_STORED_ALERTS"
  shows "k \<in> set (markAlerted a k)"
proof (cases "k \<in> set a")
  case True
  with assms show ?thesis
    by (simp add: markAlerted_def set_add_def)
next
  case False
  then show ?thesis
    by (rule markAlerted_mem)
qed

section \<open>The alerted set and the notifier\<close>

text \<open>
  C8: the key of an event that reaches the alert is inserted whether or not the delivery
  succeeds, and the state is independent of what the notifier answers. From the post of
  line 536 the call goes on to lines 636--642 and inserts the key, whatever the webhook
  answers and whatever state \<open>s'\<close> the other calls have left by then; the key is in the
  set afterwards (a set within its capacity evicts nothing but its oldest key). On every
  schedule of overlapping calls the module-level state is the same under any two
  notifiers, and so is the state that \<open>processEvent\<close> leaves.
\<close>

theorem alert_commit_ignores_notifier:
  assumes "length (alertedTrades s') \<le> MAX_STORED_ALERTS"
  shows "resumes cfg (w\<lparr>postWebhook := answer\<rparr>) (AwaitPost fr e) s [s'] =
      (Some (AwaitPacing fr),
       s'\<lparr>alertedTrades := markAlerted (alertedTrades s') (alertKey_of fr)\<rparr>) \<and>
    alertKey_of fr \<in> set (markAlerted (alertedTrades s') (alertKey_of fr)) \<and>
    shared (run cfg (w\<lparr>postWebhook := answer\<rparr>) ocs p) = shared (run cfg w ocs p) \<and>
    snd (processEvent cfg (w\<lparr>postWebhook := answer\<rparr>) ev s) = snd (processEvent cfg w ev s)"
proof -
  have "resumes cfg (w\<lparr>postWebhook := answer\<rparr>) (AwaitPost fr e) s [s'] =
      (Some (AwaitPacing fr),
       s'\<lparr>alertedTrades := markAlerted (alertedTrades s') (alertKey_of fr)\<rparr>)"
    by (simp add: Let_def split: sum.split)
  moreover from assms have "alertKey_of fr \<in> set (markAlerted (alertedTrades s') (alertKey_of fr))"
    by (rule markAlerted_in)
  moreover have "shared (run cfg (w\<lparr>postWebhook := answer\<rparr>) ocs p) = shared (run cfg w ocs p)"
    using run_notifier [where p = p and p' = p and cfg = cfg and w = w and answer = answer and ocs = ocs]
    by simp
  moreover have "snd (processEvent cfg (w\<lparr>postWebhook := answer\<rparr>) ev s) = snd (processEvent cfg w ev s)"
    by (rule processEvent_notifier)
  ultimately show ?thesis
    by simp
qed

text \<open>
  The webhook refuses the post of the one call: the alert is posted once and the key is in
  the set.
\<close>

theorem alert_commit_ignores_notifier_witness:
  "length (alertedTrades s100) \<le> MAX_STORED_ALERTS \<and>
   alertedTrades (shared (run cfg0 world_refusing single_call (idle s100))) =
     [alertKeyOf args_50000 1699920005000] \<and>
   shared (run cfg0 world_refusing single_call (idle s100)) =
     shared (run cfg0 world_fill single_call (idle s100)) \<and>
   map embed_wallet (posts (history (shared (run cfg0 world_refusing single_call (idle s100))))) =
     [maker0]"
proof -
  have alone: "alertedTrades (shared (run cfg0 world_fill single_call (idle s100))) =
      [alertKeyOf args_50000 1699920005000] \<and>
    map embed_wallet (posts (history (shared (run cfg0 world_fill single_call (idle s100))))) =
      [maker0]"
    by (simp add: single_call_def replicate_14 run_def occur_def idle_def world_fill_def world0_def
        s100_def initial_def maxBlockRange_def Let_def enterCheckWalletAge_def cfg0_def market0_def
        tradeAmountOf_def args_50000_def age_info_def DAY_MS_def alertEmbed_def
        markAlerted_eq set_add_def MAX_STORED_ALERTS_def)
  have "length (alertedTrades s100) \<le> MAX_STORED_ALERTS"
    by (simp add: s100_def initial_def)
  from alert_commit_ignores_notifier [OF this,
      where cfg = cfg0 and w = world_fill and answer = "\<lambda>h e. Inl ConnectivityError"
        and ocs = single_call and p = "idle s100"]
  have "shared (run cfg0 world_refusing single_call (idle s100)) =
      shared (run cfg0 world_fill single_call (idle s100))"
    by (simp add: world_refusing_def)
  with alone show ?thesis
    by (simp add: s100_def initial_def)
qed

section \<open>Failures of the chain queries in checkWalletAge\<close>

lemma failedOpen_fail_open:
  "failedOpen (fail_open UnknownAge)" "failedOpen (fail_open LowTxCount)"
  by (simp_all add: failedOpen_def fail_open_def)

text \<open>
  C6: a failure of the transaction-count query, of the height query, of a balance probe or
  of the block lookup (a raise, or no block and so no timestamp to read) is caught: the
  estimator returns the record that is new and of age 0, caches nothing, and the call goes
  on to the market lookup. This holds in whatever state the failing query completes, so
  also when other calls run in between; for a call that is not overlapped it is the
  result of \<open>checkWalletAge\<close>.
\<close>

theorem estimator_fails_open:
  fixes fr :: frame
  defines "address \<equiv> maker (args_of fr)"
  shows
   "(getTransactionCount w (history s) address = Inl e \<longrightarrow>
       (\<exists>walletInfo. resume cfg w (AwaitTxCount fr) s =
          (Some (AwaitWalletAge fr walletInfo), s\<lparr>history := history s @ [GetTransactionCount address]\<rparr>) \<and>
          failedOpen walletInfo)) \<and>
    (getBlockNumber w (history s) = Inl e \<longrightarrow>
       (\<exists>walletInfo. resume cfg w (AwaitSearchHeight fr) s =
          (Some (AwaitWalletAge fr walletInfo), s\<lparr>history := history s @ [GetBlockNumber]\<rparr>) \<and>
          failedOpen walletInfo)) \<and>
    (getBalance w (history s) address ((currentBlock - blocksToSearch + firstTxBlock) div 2) = Inl e \<longrightarrow>
       (\<exists>walletInfo. resume cfg w (AwaitBalance fr currentBlock blocksToSearch n firstTxBlock) s =
          (Some (AwaitWalletAge fr walletInfo),
           s\<lparr>history := history s @
              [GetBalance address ((currentBlock - blocksToSearch + firstTxBlock) div 2)]\<rparr>) \<and>
          failedOpen walletInfo)) \<and>
    (getBlock w (history s) firstTxBlock = Inl e \<or> getBlock w (history s) firstTxBlock = Inr None \<longrightarrow>
       (\<exists>walletInfo. resume cfg w (AwaitBlock fr firstTxBlock) s =
          (Some (AwaitWalletAge fr walletInfo), s\<lparr>history := history s @ [GetBlock firstTxBlock]\<rparr>) \<and>
          failedOpen walletInfo)) \<and>
    (failedOpen walletInfo \<longrightarrow>
       resume cfg w (AwaitWalletAge fr walletInfo) s' = (Some (AwaitMarkets fr walletInfo), s')) \<and>
    (walletFirstSeen s address = None \<and>
     walletFirstSeen (snd (checkWalletAge cfg w address s)) address = None \<longrightarrow>
       failedOpen (fst (checkWalletAge cfg w address s)) \<or>
       (\<exists>txCount > 10. fst (checkWalletAge cfg w address s) =
          \<lparr>isNew = False, ageInDays = 999, description = Established txCount\<rparr>))"
proof -
  have "failedOpen (fst (checkWalletAge cfg w address s)) \<or>
       (\<exists>txCount > 10. fst (checkWalletAge cfg w address s) =
          \<lparr>isNew = False, ageInDays = 999, description = Established txCount\<rparr>)"
    if none: "walletFirstSeen s address = None"
      and still: "walletFirstSeen (snd (checkWalletAge cfg w address s)) address = None"
  proof (cases "getTransactionCount w (history s) address")
    case (Inl e)
    with none show ?thesis
      by (simp add: checkWalletAge_def Let_def failedOpen_fail_open)
  next
    case count: (Inr txCount)
    show ?thesis
    proof (cases "txCount \<le> 10")
      case False
      with none count show ?thesis
        by (simp add: checkWalletAge_def Let_def)
    next
      case True
      let ?h1 = "history s @ [GetTransactionCount address]"
      show ?thesis
      proof (cases "getBlockNumber w ?h1")
        case (Inl e)
        with none count True show ?thesis
          by (simp add: checkWalletAge_def Let_def failedOpen_fail_open)
      next
        case height: (Inr cur)
        obtain res h3 where search:
          "findFirstTxBlock w address cur (min 10000 cur) 5 cur (?h1 @ [GetBlockNumber]) = (res, h3)"
          by (cases "findFirstTxBlock w address cur (min 10000 cur) 5 cur (?h1 @ [GetBlockNumber])")
        show ?thesis
        proof (cases res)
          case (Inl e)
          with none count True height search show ?thesis
            by (simp add: checkWalletAge_def Let_def failedOpen_fail_open del: findFirstTxBlock.simps)
        next
          case found: (Inr f)
          show ?thesis
          proof (cases "getBlock w h3 f")
            case (Inl e)
            with none count True height search found show ?thesis
              by (simp add: checkWalletAge_def Let_def failedOpen_fail_open del: findFirstTxBlock.simps)
          next
            case blk: (Inr b)
            show ?thesis
            proof (cases b)
              case None
              with none count True height search found blk show ?thesis
                by (simp add: checkWalletAge_def Let_def failedOpen_fail_open del: findFirstTxBlock.simps)
            next
              case (Some b')
              with none count True height search found blk still show ?thesis
                by (simp add: checkWalletAge_def Let_def del: findFirstTxBlock.simps)
            qed
          qed
        qed
      qed
    qed
  qed
  then have estimate: "walletFirstSeen s address = None \<and>
      walletFirstSeen (snd (checkWalletAge cfg w address s)) address = None \<longrightarrow>
        failedOpen (fst (checkWalletAge cfg w address s)) \<or>
        (\<exists>txCount > 10. fst (checkWalletAge cfg w address s) =
           \<lparr>isNew = False, ageInDays = 999, description = Established txCount\<rparr>)"
    by blast
  have count: "getTransactionCount w (history s) address = Inl e \<longrightarrow>
      (\<exists>walletInfo. resume cfg w (AwaitTxCount fr) s =
         (Some (AwaitWalletAge fr walletInfo), s\<lparr>history := history s @ [GetTransactionCount address]\<rparr>) \<and>
         failedOpen walletInfo)"
    by (simp add: address_def Let_def failedOpen_fail_open)
  have height: "getBlockNumber w (history s) = Inl e \<longrightarrow>
      (\<exists>walletInfo. resume cfg w (AwaitSearchHeight fr) s =
         (Some (AwaitWalletAge fr walletInfo), s\<lparr>history := history s @ [GetBlockNumber]\<rparr>) \<and>
         failedOpen walletInfo)"
    by (simp add: Let_def failedOpen_fail_open)
  have balance:
    "getBalance w (history s) address ((currentBlock - blocksToSearch + firstTxBlock) div 2) = Inl e \<longrightarrow>
      (\<exists>walletInfo. resume cfg w (AwaitBalance fr currentBlock blocksToSearch n firstTxBlock) s =
         (Some (AwaitWalletAge fr walletInfo),
          s\<lparr>history := history s @
             [GetBalance address ((currentBlock - blocksToSearch + firstTxBlock) div 2)]\<rparr>) \<and>
         failedOpen walletInfo)"
    by (simp add: address_def Let_def failedOpen_fail_open)
  have block:
    "getBlock w (history s) firstTxBlock = Inl e \<or> getBlock w (history s) firstTxBlock = Inr None \<longrightarrow>
      (\<exists>walletInfo. resume cfg w (AwaitBlock fr firstTxBlock) s =
         (Some (AwaitWalletAge fr walletInfo), s\<lparr>history := history s @ [GetBlock firstTxBlock]\<rparr>) \<and>
         failedOpen walletInfo)"
    by (auto simp: Let_def failedOpen_fail_open)
  have goes_on: "failedOpen walletInfo \<longrightarrow>
      resume cfg w (AwaitWalletAge fr walletInfo) s' = (Some (AwaitMarkets fr walletInfo), s')"
    by (simp add: failedOpen_def)
  from count height balance block goes_on estimate show ?thesis
    by (intro conjI)
qed

text \<open>
  The provider is down: each of the four queries, failing, sends the call on with the
  record that is new and of age 0, the cache untouched.
\<close>

theorem estimator_fails_open_witness:
  "getTransactionCount world_down (history s100) maker0 = Inl ConnectivityError \<and>
   getBlockNumber world_down (history s100) = Inl ConnectivityError \<and>
   getBalance world_down (history s100) maker0 ((1000000 - 10000 + 1000000) div 2) = Inl ConnectivityError \<and>
   getBlock world_down (history s100) 1000000 = Inl ConnectivityError \<and>
   resume cfg0 world_down (AwaitTxCount frame0) s100 =
     (Some (AwaitWalletAge frame0 \<lparr>isNew = True, ageInDays = 0, description = UnknownAge\<rparr>),
      s100\<lparr>history := [GetTransactionCount maker0]\<rparr>) \<and>
   resume cfg0 world_down (AwaitSearchHeight frame0) s100 =
     (Some (AwaitWalletAge frame0 \<lparr>isNew = True, ageInDays = 0, description = LowTxCount\<rparr>),
      s100\<lparr>history := [GetBlockNumber]\<rparr>) \<and>
   resume cfg0 world_down (AwaitBalance frame0 1000000 10000 4 1000000) s100 =
     (Some (AwaitWalletAge frame0 \<lparr>isNew = True, ageInDays = 0, description = LowTxCount\<rparr>),
      s100\<lparr>history := [GetBalance maker0 995000]\<rparr>) \<and>
   resume cfg0 world_down (AwaitBlock frame0 1000000) s100 =
     (Some (AwaitWalletAge frame0 \<lparr>isNew = True, ageInDays = 0, description = LowTxCount\<rparr>),
      s100\<lparr>history := [GetBlock 1000000]\<rparr>) \<and>
   failedOpen \<lparr>isNew = True, ageInDays = 0, description = LowTxCount\<rparr> \<and>
   resume cfg0 world_down (AwaitWalletAge frame0 \<lparr>isNew = True, ageInDays = 0, description = LowTxCount\<rparr>) s100 =
     (Some (AwaitMarkets frame0 \<lparr>isNew = True, ageInDays = 0, description = LowTxCount\<rparr>), s100) \<and>
   walletFirstSeen s100 maker0 = None \<and>
   walletFirstSeen (snd (checkWalletAge cfg0 world_down maker0 s100)) maker0 = None \<and>
   failedOpen (fst (checkWalletAge cfg0 world_down maker0 s100))"
  using estimator_fails_open [where fr = frame0 and w = world_down and s = s100 and cfg = cfg0
      and e = ConnectivityError and currentBlock = 1000000 and blocksToSearch = 10000
      and firstTxBlock = 1000000 and n = 4 and s' = s100
      and walletInfo = "\<lparr>isNew = True, ageInDays = 0, description = LowTxCount\<rparr>"]
  by (simp add: world_down_def world0_def frame0_def args_50000_def s100_def initial_def
      failedOpen_def fail_open_def checkWalletAge_def Let_def)

end
